theory Spec2Isabelle
  imports Main "HOL-Library.Word" "HOL-Library.Signed_Division" "HOL-Library.Monad_Syntax"
begin

section \<open>The segment tree of \<^verbatim>\<open>segment_tree.cpp\<close>\<close>

text \<open>
  The class \<^verbatim>\<open>SegmentTree\<close> keeps two bounds and two arrays. Every member function
  is modelled as a function on the record below that returns the updated record.

  The C++ type \<^verbatim>\<open>int\<close> is a 32-bit word: bounds, slots, sizes, aggregates, tags,
  deltas and sums are all of type \<open>int32\<close>. Addition, subtraction and multiplication wrap
  around (two's complement, which is what the compiled program computes; the C++ standard
  leaves signed overflow undefined), comparisons are the signed ones (\<open>\<le>s\<close>), and division
  truncates towards zero.

  A result \<open>None\<close> stands for a run without a defined result: an array access outside
  the array (undefined behaviour of \<^verbatim>\<open>vector::operator[]\<close>), a \<^verbatim>\<open>vector\<close> constructor
  called with a negative size (it throws), or a recursion that never returns.
\<close>

type_synonym int32 = "32 word"

text \<open>
  The field \<open>guard\<close> is not a member of the class. It is the least slot at which
  \<^verbatim>\<open>_tree\<close> and \<^verbatim>\<open>_tags\<close> may be accessed: a \<^verbatim>\<open>vector\<close> accepts every slot from 0, so
  both constructors set it to 0 and no function changes it. Running a call on a tree with
  \<open>guard\<close> 1 shows that the call never uses slot 0.
\<close>

record segtree =
  left_bound :: int32
  right_bound :: int32
  tree :: "int32 list"
  tags :: "int32 list"
  guard :: int

text \<open>Division of two \<^verbatim>\<open>int\<close>s.\<close>

definition int_div :: "int32 \<Rightarrow> int32 \<Rightarrow> int32" where
  "int_div a b = word_of_int (sint a sdiv sint b)"

text \<open>
  Reading and writing one slot of \<^verbatim>\<open>_tree\<close>, of \<^verbatim>\<open>_tags\<close> and of the input vector. The
  subscript is an \<^verbatim>\<open>int\<close>; a negative one is converted to a huge \<^verbatim>\<open>size_t\<close> and lies
  outside the array.
\<close>

definition tree_get :: "int32 \<Rightarrow> segtree \<Rightarrow> int32 option" where
  "tree_get i s =
     (if guard s \<le> sint i \<and> sint i < int (length (tree s))
      then Some (tree s ! nat (sint i)) else None)"

definition tree_set :: "int32 \<Rightarrow> int32 \<Rightarrow> segtree \<Rightarrow> segtree option" where
  "tree_set i v s =
     (if guard s \<le> sint i \<and> sint i < int (length (tree s))
      then Some (s\<lparr>tree := (tree s)[nat (sint i) := v]\<rparr>) else None)"

definition tags_get :: "int32 \<Rightarrow> segtree \<Rightarrow> int32 option" where
  "tags_get i s =
     (if guard s \<le> sint i \<and> sint i < int (length (tags s))
      then Some (tags s ! nat (sint i)) else None)"

definition tags_set :: "int32 \<Rightarrow> int32 \<Rightarrow> segtree \<Rightarrow> segtree option" where
  "tags_set i v s =
     (if guard s \<le> sint i \<and> sint i < int (length (tags s))
      then Some (s\<lparr>tags := (tags s)[nat (sint i) := v]\<rparr>) else None)"

definition vec_get :: "int32 list \<Rightarrow> int32 \<Rightarrow> int32 option" where
  "vec_get vec i =
     (if 0 \<le> sint i \<and> sint i < int (length vec) then Some (vec ! nat (sint i)) else None)"

text \<open>\<^verbatim>\<open>_space_needed\<close> (lines 26-29).\<close>

definition space_needed :: "segtree \<Rightarrow> int32" where
  "space_needed s = 4 * (right_bound s - left_bound s + 1)"

text \<open>\<^verbatim>\<open>_build\<close> (lines 32-42).\<close>

partial_function (option) priv_build ::
  "int32 \<Rightarrow> int32 \<Rightarrow> int32 \<Rightarrow> int32 list \<Rightarrow> segtree \<Rightarrow> segtree option" where
  "priv_build idx left right vec s =
     (if left = right then do {
        x \<leftarrow> vec_get vec left;
        tree_set idx x s
      } else do {
        let mid = left + int_div (right - left) 2;
        s \<leftarrow> priv_build (idx * 2) left mid vec s;
        s \<leftarrow> priv_build (idx * 2 + 1) (mid + 1) right vec s;
        a \<leftarrow> tree_get (idx * 2) s;
        b \<leftarrow> tree_get (idx * 2 + 1) s;
        tree_set idx (a + b) s
      })"

text \<open>
  The push-down of the lazy tag. The source has the same block twice, in \<^verbatim>\<open>_add\<close>
  (lines 64-72) and in \<^verbatim>\<open>_get_sum\<close> (lines 103-111). Every statement reads
  \<^verbatim>\<open>_tags[idx]\<close> again, as the source does.
\<close>

definition push_down :: "int32 \<Rightarrow> int32 \<Rightarrow> int32 \<Rightarrow> int32 \<Rightarrow> segtree \<Rightarrow> segtree option" where
  "push_down idx lb rb mid s = do {
     g \<leftarrow> tags_get idx s;
     if g \<noteq> 0 \<and> lb \<noteq> rb then do {
       c \<leftarrow> tags_get (idx * 2) s;
       g \<leftarrow> tags_get idx s;
       s \<leftarrow> tags_set (idx * 2) (c + g) s;
       c \<leftarrow> tags_get (idx * 2 + 1) s;
       g \<leftarrow> tags_get idx s;
       s \<leftarrow> tags_set (idx * 2 + 1) (c + g) s;
       t \<leftarrow> tree_get (idx * 2) s;
       g \<leftarrow> tags_get idx s;
       s \<leftarrow> tree_set (idx * 2) (t + g * (mid - lb + 1)) s;
       t \<leftarrow> tree_get (idx * 2 + 1) s;
       g \<leftarrow> tags_get idx s;
       s \<leftarrow> tree_set (idx * 2 + 1) (t + g * (rb - mid)) s;
       tags_set idx 0 s
     } else Some s
   }"

text \<open>\<^verbatim>\<open>_add\<close> (lines 51-86).\<close>

partial_function (option) priv_add ::
  "int32 \<Rightarrow> int32 \<Rightarrow> int32 \<Rightarrow> int32 \<Rightarrow> int32 \<Rightarrow> int32 \<Rightarrow> segtree \<Rightarrow> segtree option" where
  "priv_add val idx left right lb rb s =
     (if left \<le>s lb \<and> rb \<le>s right then do {
        t \<leftarrow> tree_get idx s;
        s \<leftarrow> tree_set idx (t + val * (rb - lb + 1)) s;
        g \<leftarrow> tags_get idx s;
        tags_set idx (g + val) s
      } else do {
        let mid = lb + int_div (rb - lb) 2;
        s \<leftarrow> push_down idx lb rb mid s;
        s \<leftarrow> (if left \<le>s mid then priv_add val (idx * 2) left right lb mid s else Some s);
        s \<leftarrow> (if mid + 1 \<le>s right then priv_add val (idx * 2 + 1) left right (mid + 1) rb s
              else Some s);
        a \<leftarrow> tree_get (idx * 2) s;
        b \<leftarrow> tree_get (idx * 2 + 1) s;
        tree_set idx (a + b) s
      })"

text \<open>\<^verbatim>\<open>_get_sum\<close> (lines 94-123): the sum and the state after the push-downs.\<close>

partial_function (option) priv_get_sum ::
  "int32 \<Rightarrow> int32 \<Rightarrow> int32 \<Rightarrow> int32 \<Rightarrow> int32 \<Rightarrow> segtree \<Rightarrow> (int32 \<times> segtree) option" where
  "priv_get_sum idx left right lb rb s =
     (if left \<le>s lb \<and> rb \<le>s right then do {
        t \<leftarrow> tree_get idx s;
        Some (t, s)
      } else do {
        let mid = lb + int_div (rb - lb) 2;
        let sum = 0;
        s \<leftarrow> push_down idx lb rb mid s;
        (sum, s) \<leftarrow> (if left \<le>s mid then do {
                        (x, s) \<leftarrow> priv_get_sum (idx * 2) left right lb mid s;
                        Some (sum + x, s)
                      } else Some (sum, s));
        (sum, s) \<leftarrow> (if mid + 1 \<le>s right then do {
                        (x, s) \<leftarrow> priv_get_sum (idx * 2 + 1) left right (mid + 1) rb s;
                        Some (sum + x, s)
                      } else Some (sum, s));
        Some (sum, s)
      })"

declare priv_build.simps [code]
declare priv_add.simps [code]
declare priv_get_sum.simps [code]

text \<open>
  The two constructors (lines 127-141). \<^verbatim>\<open>vector<int>(n, 0)\<close> takes its size as a
  \<^verbatim>\<open>size_t\<close>: a negative \<^verbatim>\<open>int\<close> becomes a size that no vector can have, and the
  constructor throws. \<^verbatim>\<open>vec.size() - 1\<close> is stored in an \<^verbatim>\<open>int\<close>, which keeps its low
  32 bits.
\<close>

definition SegmentTree_range :: "int32 \<Rightarrow> int32 \<Rightarrow> segtree option" where
  "SegmentTree_range lb rb =
     (let s = \<lparr>left_bound = lb, right_bound = rb, tree = [], tags = [], guard = 0\<rparr>;
          n = space_needed s
      in if sint n < 0 then None
         else Some (s\<lparr>tree := replicate (nat (sint n)) 0, tags := replicate (nat (sint n)) 0\<rparr>))"

definition SegmentTree_vec :: "int32 list \<Rightarrow> segtree option" where
  "SegmentTree_vec vec =
     (let s = \<lparr>left_bound = 0, right_bound = word_of_nat (length vec) - 1,
               tree = [], tags = [], guard = 0\<rparr>;
          n = space_needed s
      in if sint n < 0 then None
         else priv_build 1 (left_bound s) (right_bound s) vec
                (s\<lparr>tree := replicate (nat (sint n)) 0, tags := replicate (nat (sint n)) 0\<rparr>))"

text \<open>The public member functions (lines 144-151).\<close>

definition get_sum :: "int32 \<Rightarrow> int32 \<Rightarrow> segtree \<Rightarrow> (int32 \<times> segtree) option" where
  "get_sum left right s = priv_get_sum 1 left right (left_bound s) (right_bound s) s"

definition add :: "int32 \<Rightarrow> int32 \<Rightarrow> int32 \<Rightarrow> segtree \<Rightarrow> segtree option" where
  "add val left right s = priv_add val 1 left right (left_bound s) (right_bound s) s"


section \<open>Runs of the public interface\<close>

text \<open>
  The precondition of \<^verbatim>\<open>add\<close> and \<^verbatim>\<open>get_sum\<close>:
  \<open>left_bound \<le> left \<le> right \<le> right_bound\<close>, as the program compares \<^verbatim>\<open>int\<close>s.
\<close>

definition valid :: "segtree \<Rightarrow> int32 \<Rightarrow> int32 \<Rightarrow> bool" where
  "valid s l r \<longleftrightarrow> left_bound s \<le>s l \<and> l \<le>s r \<and> r \<le>s right_bound s"

text \<open>
  The states a caller can reach: a construction that meets the precondition of the
  specification (\<open>left_bound \<le> right_bound\<close>, or a non-empty input sequence), followed by
  calls of \<^verbatim>\<open>add\<close> and \<^verbatim>\<open>get_sum\<close> that meet theirs.
\<close>

inductive reachable :: "segtree \<Rightarrow> bool" where
  reachable_range: "lb \<le>s rb \<Longrightarrow> SegmentTree_range lb rb = Some s \<Longrightarrow> reachable s"
| reachable_vec: "vec \<noteq> [] \<Longrightarrow> SegmentTree_vec vec = Some s \<Longrightarrow> reachable s"
| reachable_add: "reachable s \<Longrightarrow> valid s l r \<Longrightarrow> add v l r s = Some s' \<Longrightarrow> reachable s'"
| reachable_get_sum:
    "reachable s \<Longrightarrow> valid s l r \<Longrightarrow> get_sum l r s = Some (x, s') \<Longrightarrow> reachable s'"

text \<open>
  The size bound that the specification does not state: the number of slots that
  \<^verbatim>\<open>_space_needed\<close> asks for, \<open>4 * (R - L + 1)\<close>, is an \<^verbatim>\<open>int\<close>, that is, less than
  \<open>2 ^ 31\<close>. \<open>sized s\<close> says so of the range of \<open>s\<close>, with \<open>L \<le> R\<close>.
\<close>

definition sized :: "segtree \<Rightarrow> bool" where
  "sized s \<longleftrightarrow>
     sint (left_bound s) \<le> sint (right_bound s) \<and>
     4 * (sint (right_bound s) - sint (left_bound s) + 1) < 2 ^ 31"

text \<open>
  The point values a tree stands for ("the true values given all updates applied so
  far"), as a function of the position: all zero after the empty construction, the input
  after the bulk construction, and changed by each \<^verbatim>\<open>add\<close> on its range. The values are
  \<^verbatim>\<open>int\<close>s and are added as the program adds \<^verbatim>\<open>int\<close>s. \<open>reach s a\<close> says that \<open>s\<close> is
  reachable by a run after which the point values are \<open>a\<close>.
\<close>

definition zeros :: "int \<Rightarrow> int32" where
  "zeros p = 0"

definition of_vec :: "int32 list \<Rightarrow> int \<Rightarrow> int32" where
  "of_vec vec p = (if 0 \<le> p \<and> p < int (length vec) then vec ! nat p else 0)"

definition range_add :: "int32 \<Rightarrow> int \<Rightarrow> int \<Rightarrow> (int \<Rightarrow> int32) \<Rightarrow> int \<Rightarrow> int32" where
  "range_add v l r a p = (if l \<le> p \<and> p \<le> r then a p + v else a p)"

definition range_sum :: "(int \<Rightarrow> int32) \<Rightarrow> int \<Rightarrow> int \<Rightarrow> int32" where
  "range_sum a l r = sum_list (map a [l..r])"

inductive reach :: "segtree \<Rightarrow> (int \<Rightarrow> int32) \<Rightarrow> bool" where
  reach_range: "lb \<le>s rb \<Longrightarrow> SegmentTree_range lb rb = Some s \<Longrightarrow> reach s zeros"
| reach_vec: "vec \<noteq> [] \<Longrightarrow> SegmentTree_vec vec = Some s \<Longrightarrow> reach s (of_vec vec)"
| reach_add:
    "reach s a \<Longrightarrow> valid s l r \<Longrightarrow> add v l r s = Some s' \<Longrightarrow>
     reach s' (range_add v (sint l) (sint r) a)"
| reach_get_sum:
    "reach s a \<Longrightarrow> valid s l r \<Longrightarrow> get_sum l r s = Some (x, s') \<Longrightarrow> reach s' a"

text \<open>
  The nodes of a tree: \<open>node s idx lb rb acc\<close> says that slot \<open>idx\<close> is the node that
  covers \<open>[lb, rb]\<close>, and that the tags of its proper ancestors add up to \<open>acc\<close>. The
  root is slot 1; the children of a node with more than one point split its range at
  \<open>mid\<close> as the recursions of the source do.
\<close>

inductive node :: "segtree \<Rightarrow> int32 \<Rightarrow> int32 \<Rightarrow> int32 \<Rightarrow> int32 \<Rightarrow> bool" where
  node_root: "node s 1 (left_bound s) (right_bound s) 0"
| node_left:
    "node s idx lb rb acc \<Longrightarrow> lb <s rb \<Longrightarrow>
     node s (idx * 2) lb (lb + int_div (rb - lb) 2) (acc + tags s ! nat (sint idx))"
| node_right:
    "node s idx lb rb acc \<Longrightarrow> lb <s rb \<Longrightarrow>
     node s (idx * 2 + 1) (lb + int_div (rb - lb) 2 + 1) rb (acc + tags s ! nat (sint idx))"

text \<open>A sequence of calls, and the list of the sums it returns.\<close>

datatype op = Add int32 int32 int32 | GetSum int32 int32

fun valid_op :: "segtree \<Rightarrow> op \<Rightarrow> bool" where
  "valid_op s (Add v l r) = valid s l r"
| "valid_op s (GetSum l r) = valid s l r"

fun run :: "op list \<Rightarrow> segtree \<Rightarrow> (int32 list \<times> segtree) option" where
  "run [] s = Some ([], s)"
| "run (Add v l r # ops) s = do { s \<leftarrow> add v l r s; run ops s }"
| "run (GetSum l r # ops) s = do {
     (x, s) \<leftarrow> get_sum l r s;
     (xs, s) \<leftarrow> run ops s;
     Some (x # xs, s)
   }"

definition results :: "op list \<Rightarrow> segtree \<Rightarrow> int32 list option" where
  "results ops s = map_option fst (run ops s)"

text \<open>The sums the same calls return on the point values.\<close>

fun sums :: "op list \<Rightarrow> (int \<Rightarrow> int32) \<Rightarrow> int32 list" where
  "sums [] a = []"
| "sums (Add v l r # ops) a = sums ops (range_add v (sint l) (sint r) a)"
| "sums (GetSum l r # ops) a = range_sum a (sint l) (sint r) # sums ops a"

fun final :: "op list \<Rightarrow> (int \<Rightarrow> int32) \<Rightarrow> int \<Rightarrow> int32" where
  "final [] a = a"
| "final (Add v l r # ops) a = final ops (range_add v (sint l) (sint r) a)"
| "final (GetSum l r # ops) a = final ops a"

section \<open>The invariant\<close>

text \<open>The arrays read as functions of the slot, and the split point of a range.\<close>

definition tr :: "segtree \<Rightarrow> int \<Rightarrow> int32" where
  "tr s i = tree s ! nat i"

definition tg :: "segtree \<Rightarrow> int \<Rightarrow> int32" where
  "tg s i = tags s ! nat i"

definition midpoint :: "int \<Rightarrow> int \<Rightarrow> int" where
  "midpoint lb rb = lb + (rb - lb) div 2"

text \<open>\<open>desc i j\<close>: slot \<open>j\<close> lies in the subtree of slot \<open>i\<close>.\<close>

inductive desc :: "int \<Rightarrow> int \<Rightarrow> bool" where
  desc_refl: "desc i i"
| desc_left: "desc i j \<Longrightarrow> desc i (j * 2)"
| desc_right: "desc i j \<Longrightarrow> desc i (j * 2 + 1)"

text \<open>\<open>fits n idx lb rb\<close>: every slot of the subtree of the node \<open>idx\<close> over \<open>[lb, rb]\<close>
  lies in \<open>1 .. n - 1\<close>.\<close>

function fits :: "int \<Rightarrow> int \<Rightarrow> int \<Rightarrow> int \<Rightarrow> bool" where
  "fits n idx lb rb \<longleftrightarrow>
     1 \<le> idx \<and> idx < n \<and>
     (lb < rb \<longrightarrow> fits n (idx * 2) lb (midpoint lb rb) \<and>
                 fits n (idx * 2 + 1) (midpoint lb rb + 1) rb)"
  by pat_completeness auto
termination
  by (relation "measure (\<lambda>(n, idx, lb, rb). nat (rb - lb))")
     (auto simp: midpoint_def)

declare fits.simps [simp del]

text \<open>
  \<open>tree_inv T G a acc idx lb rb\<close>: in the subtree of the node \<open>idx\<close> over \<open>[lb, rb]\<close>,
  the aggregate of every node, plus the tags pending above it (\<open>acc\<close> at \<open>idx\<close>) for each
  of its points, is the sum of the point values \<open>a\<close> over the range of the node.
\<close>

function tree_inv ::
  "(int \<Rightarrow> int32) \<Rightarrow> (int \<Rightarrow> int32) \<Rightarrow> (int \<Rightarrow> int32) \<Rightarrow> int32 \<Rightarrow> int \<Rightarrow> int \<Rightarrow> int \<Rightarrow> bool" where
  "tree_inv T G a acc idx lb rb \<longleftrightarrow>
     T idx + acc * of_int (rb - lb + 1) = range_sum a lb rb \<and>
     (lb < rb \<longrightarrow> tree_inv T G a (acc + G idx) (idx * 2) lb (midpoint lb rb) \<and>
                 tree_inv T G a (acc + G idx) (idx * 2 + 1) (midpoint lb rb + 1) rb)"
  by pat_completeness auto
termination
  by (relation "measure (\<lambda>(T, G, a, acc, idx, lb, rb). nat (rb - lb))")
     (auto simp: midpoint_def)

declare tree_inv.simps [simp del]

definition good :: "segtree \<Rightarrow> (int \<Rightarrow> int32) \<Rightarrow> bool" where
  "good s a \<longleftrightarrow>
     sized s \<and> guard s \<le> 1 \<and>
     length (tags s) = length (tree s) \<and>
     int (length (tree s)) = 4 * (sint (right_bound s) - sint (left_bound s) + 1) \<and>
     fits (4 * (sint (right_bound s) - sint (left_bound s) + 1)) 1
       (sint (left_bound s)) (sint (right_bound s)) \<and>
     tree_inv (tr s) (tg s) a 0 1 (sint (left_bound s)) (sint (right_bound s))"

text \<open>
  \<open>frame idx s s'\<close>: the bounds, the guard and the sizes of the arrays are the same in
  \<open>s'\<close> as in \<open>s\<close>, and so is every slot outside the subtree of \<open>idx\<close>.
\<close>

definition same_shape :: "segtree \<Rightarrow> segtree \<Rightarrow> bool" where
  "same_shape s s' \<longleftrightarrow>
     left_bound s' = left_bound s \<and> right_bound s' = right_bound s \<and> guard s' = guard s \<and>
     length (tree s') = length (tree s) \<and> length (tags s') = length (tags s)"

definition frame :: "int \<Rightarrow> segtree \<Rightarrow> segtree \<Rightarrow> bool" where
  "frame idx s s' \<longleftrightarrow>
     same_shape s s' \<and> (\<forall>j. \<not> desc idx j \<longrightarrow> tr s' j = tr s j \<and> tg s' j = tg s j)"

text \<open>\<open>leaf_slot idx lb rb k\<close>: \<open>k\<close> is the slot of a leaf of the subtree of the node \<open>idx\<close>
  over \<open>[lb, rb]\<close>.\<close>

function leaf_slot :: "int \<Rightarrow> int \<Rightarrow> int \<Rightarrow> int \<Rightarrow> bool" where
  "leaf_slot idx lb rb k \<longleftrightarrow>
     (if lb < rb
      then leaf_slot (idx * 2) lb (midpoint lb rb) k \<or>
           leaf_slot (idx * 2 + 1) (midpoint lb rb + 1) rb k
      else k = idx)"
  by pat_completeness auto
termination
  by (relation "measure (\<lambda>(idx, lb, rb, k). nat (rb - lb))")
     (auto simp: midpoint_def)

declare leaf_slot.simps [simp del]

section \<open>Example trees\<close>

text \<open>
  The tree that the bulk constructor builds from \<open>[3, 1, 4, 1]\<close>, the tree after
  \<^verbatim>\<open>add(2, 0, 1)\<close> on it, with a pending tag at slot 2 (the node of \<open>[0, 1]\<close>), and the
  point values of that tree.
\<close>

definition example_built :: segtree where
  "example_built =
     \<lparr>left_bound = 0, right_bound = 3,
      tree = [0, 9, 4, 5, 3, 1, 4, 1, 0, 0, 0, 0, 0, 0, 0, 0],
      tags = [0, 0, 0, 0, 0, 0, 0, 0, 0, 0, 0, 0, 0, 0, 0, 0], guard = 0\<rparr>"

definition example_tree :: segtree where
  "example_tree =
     \<lparr>left_bound = 0, right_bound = 3,
      tree = [0, 13, 8, 5, 3, 1, 4, 1, 0, 0, 0, 0, 0, 0, 0, 0],
      tags = [0, 0, 2, 0, 0, 0, 0, 0, 0, 0, 0, 0, 0, 0, 0, 0], guard = 0\<rparr>"

definition example_values :: "int \<Rightarrow> int32" where
  "example_values = range_add 2 0 1 (of_vec [3, 1, 4, 1])"

text \<open>
  The tree that \<^verbatim>\<open>SegmentTree(0, 1073741823)\<close> returns. Its range has \<open>2 ^ 30\<close> points,
  \<open>4 * 2 ^ 30\<close> is 0 as an \<^verbatim>\<open>int\<close>, and both arrays are empty.
\<close>

definition wrapped_tree :: segtree where
  "wrapped_tree =
     \<lparr>left_bound = 0, right_bound = 1073741823, tree = [], tags = [], guard = 0\<rparr>"

text \<open>
  The tree that the bulk constructor builds from \<open>[2147483647]\<close>, the tree after
  \<^verbatim>\<open>add(1, 0, 0)\<close> on it, and the tree built from \<open>[2147483647, 1]\<close>. The word
  \<open>2147483648\<close> is the \<^verbatim>\<open>int\<close> \<open>- 2147483648\<close>.
\<close>

definition max_tree :: segtree where
  "max_tree =
     \<lparr>left_bound = 0, right_bound = 0, tree = [0, 2147483647, 0, 0],
      tags = [0, 0, 0, 0], guard = 0\<rparr>"

definition over_tree :: segtree where
  "over_tree =
     \<lparr>left_bound = 0, right_bound = 0, tree = [0, 2147483648, 0, 0],
      tags = [0, 1, 0, 0], guard = 0\<rparr>"

definition pair_tree :: segtree where
  "pair_tree =
     \<lparr>left_bound = 0, right_bound = 1, tree = [0, 2147483648, 2147483647, 1, 0, 0, 0, 0],
      tags = [0, 0, 0, 0, 0, 0, 0, 0], guard = 0\<rparr>"

section \<open>Arithmetic of the ranges\<close>

lemma midpoint_bounds: "lb < rb \<Longrightarrow> lb \<le> midpoint lb rb \<and> midpoint lb rb < rb"
  by (simp add: midpoint_def)

lemma range_sum_sum: "range_sum a l r = sum a {l..r}"
  by (simp add: range_sum_def sum_list_distinct_conv_sum_set)

lemma range_sum_empty: "r < l \<Longrightarrow> range_sum a l r = 0"
  by (simp add: range_sum_sum)

lemma range_sum_single: "range_sum a l l = a l"
  by (simp add: range_sum_sum)

lemma range_sum_split:
  assumes "l \<le> m + 1" "m \<le> r"
  shows "range_sum a l r = range_sum a l m + range_sum a (m + 1) r"
proof -
  have "{l..r} = {l..m} \<union> {m + 1..r}"
    using assms by auto
  moreover have "{l..m} \<inter> {m + 1..r} = {}"
    by auto
  ultimately show ?thesis
    by (simp add: range_sum_sum sum.union_disjoint)
qed

lemma range_sum_cong:
  "(\<And>p. l \<le> p \<Longrightarrow> p \<le> r \<Longrightarrow> a' p = a p) \<Longrightarrow> range_sum a' l r = range_sum a l r"
  by (simp add: range_sum_sum)

lemma range_sum_shift:
  assumes "lb \<le> rb + 1"
  shows "range_sum (\<lambda>p. a p + v) lb rb = range_sum a lb rb + v * of_int (rb - lb + 1)"
proof -
  have "sum (\<lambda>p. a p + v) {lb..rb} = sum a {lb..rb} + of_nat (card {lb..rb}) * v"
    by (simp add: sum.distrib)
  moreover have "int (card {lb..rb}) = rb - lb + 1"
    using assms by simp
  then have "(of_nat (card {lb..rb}) :: int32) = of_int (rb - lb + 1)"
    by (metis of_int_of_nat_eq)
  ultimately show ?thesis
    by (simp add: range_sum_sum mult.commute)
qed

lemma range_sum_range_add_inside:
  assumes "l \<le> lb" "rb \<le> r" "lb \<le> rb + 1"
  shows "range_sum (range_add v l r a) lb rb = range_sum a lb rb + v * of_int (rb - lb + 1)"
proof -
  have "range_sum (range_add v l r a) lb rb = range_sum (\<lambda>p. a p + v) lb rb"
    using assms by (auto intro!: range_sum_cong simp: range_add_def)
  then show ?thesis
    using assms by (simp add: range_sum_shift)
qed

section \<open>The slots of a subtree\<close>

lemma desc_ge: "desc i j \<Longrightarrow> 1 \<le> i \<Longrightarrow> i \<le> j"
  by (induction rule: desc.induct) auto

lemma desc_trans: "desc k j \<Longrightarrow> desc i k \<Longrightarrow> desc i j"
  by (induction rule: desc.induct) (auto intro: desc.intros)

lemma desc_via_left: "desc (i * 2) j \<Longrightarrow> desc i j"
  by (erule desc_trans) (intro desc.intros)

lemma desc_via_right: "desc (i * 2 + 1) j \<Longrightarrow> desc i j"
  by (erule desc_trans) (intro desc.intros)

lemma not_desc_left_self: "1 \<le> i \<Longrightarrow> \<not> desc (i * 2) i"
  using desc_ge [of "i * 2" i] by auto

lemma not_desc_right_self: "1 \<le> i \<Longrightarrow> \<not> desc (i * 2 + 1) i"
  using desc_ge [of "i * 2 + 1" i] by auto

lemma desc_disjoint_aux:
  assumes "desc k j" "k = i * 2" "desc (i * 2 + 1) j" "1 \<le> i"
  shows False
  using assms
proof (induction rule: desc.induct)
  case (desc_refl k)
  then show ?case using desc_ge [of "i * 2 + 1" "i * 2"] by simp
next
  case (desc_left k j)
  from desc_left.prems(2) show ?case
  proof (cases rule: desc.cases)
    case desc_refl
    then show ?thesis by presburger
  next
    case (desc_left k')
    then have "k' = j" by simp
    with desc_left desc_left.IH desc_left.prems show ?thesis by simp
  next
    case (desc_right k')
    then show ?thesis by presburger
  qed
next
  case (desc_right k j)
  from desc_right.prems(2) show ?case
  proof (cases rule: desc.cases)
    case desc_refl
    then have "j = i" by simp
    with desc_right.hyps desc_right.prems show ?thesis using not_desc_left_self by simp
  next
    case (desc_left k')
    then show ?thesis by presburger
  next
    case (desc_right k')
    then have "k' = j" by simp
    with desc_right desc_right.IH desc_right.prems show ?thesis by simp
  qed
qed

lemma desc_disjoint: "desc (i * 2) j \<Longrightarrow> desc (i * 2 + 1) j \<Longrightarrow> 1 \<le> i \<Longrightarrow> False"
  by (rule desc_disjoint_aux [OF _ refl])

lemma tree_inv_cong_aux:
  assumes "tree_inv T G a acc idx lb rb"
    and "\<And>j. desc idx j \<Longrightarrow> T' j = T j \<and> G' j = G j"
    and "\<And>p. lb \<le> p \<Longrightarrow> p \<le> rb \<Longrightarrow> a' p = a p"
  shows "tree_inv T' G' a' acc idx lb rb"
  using assms
proof (induction T G a acc idx lb rb rule: tree_inv.induct)
  case (1 T G a acc idx lb rb)
  have here: "T' idx = T idx" "G' idx = G idx"
    using "1.prems"(2) [of idx] by (simp_all add: desc_refl)
  have sum: "range_sum a' lb rb = range_sum a lb rb"
    using "1.prems"(3) by (rule range_sum_cong)
  have top: "T idx + acc * of_int (rb - lb + 1) = range_sum a lb rb"
    using "1.prems"(1) by (subst (asm) tree_inv.simps) simp
  show ?case
  proof (cases "lb < rb")
    case False
    with top here sum show ?thesis
      by (subst tree_inv.simps) simp
  next
    case True
    note mb = midpoint_bounds [OF True]
    from "1.prems"(1) True
    have l: "tree_inv T G a (acc + G idx) (idx * 2) lb (midpoint lb rb)"
      and r: "tree_inv T G a (acc + G idx) (idx * 2 + 1) (midpoint lb rb + 1) rb"
      by (subst (asm) tree_inv.simps, simp)+
    have "tree_inv T' G' a' (acc + G idx) (idx * 2) lb (midpoint lb rb)"
      using True l "1.prems"(2,3) mb
      by (intro "1.IH"(1)) (auto dest: desc_via_left)
    moreover have "tree_inv T' G' a' (acc + G idx) (idx * 2 + 1) (midpoint lb rb + 1) rb"
      using True r "1.prems"(2,3) mb
      by (intro "1.IH"(2)) (auto dest: desc_via_right)
    ultimately show ?thesis
      using top here sum by (subst tree_inv.simps) simp
  qed
qed

lemma tree_inv_cong:
  assumes "tree_inv T G a acc idx lb rb"
    and "acc' = acc"
    and "\<And>j. desc idx j \<Longrightarrow> T' j = T j \<and> G' j = G j"
    and "\<And>p. lb \<le> p \<Longrightarrow> p \<le> rb \<Longrightarrow> a' p = a p"
  shows "tree_inv T' G' a' acc' idx lb rb"
  using tree_inv_cong_aux [OF assms(1,3,4)] assms(2) by simp

lemma tree_inv_shift:
  assumes "tree_inv T G a acc idx lb rb" "lb \<le> rb"
  shows "tree_inv T G (\<lambda>p. a p + v) (acc + v) idx lb rb"
  using assms
proof (induction T G a acc idx lb rb rule: tree_inv.induct)
  case (1 T G a acc idx lb rb)
  have top: "T idx + acc * of_int (rb - lb + 1) = range_sum a lb rb"
    using "1.prems"(1) by (subst (asm) tree_inv.simps) simp
  have top': "T idx + (acc + v) * of_int (rb - lb + 1) = range_sum (\<lambda>p. a p + v) lb rb"
  proof -
    have "range_sum (\<lambda>p. a p + v) lb rb = range_sum a lb rb + v * of_int (rb - lb + 1)"
      using "1.prems"(2) by (simp add: range_sum_shift)
    with top show ?thesis by (simp add: algebra_simps)
  qed
  show ?case
  proof (cases "lb < rb")
    case False
    with top' show ?thesis
      by (subst tree_inv.simps) simp
  next
    case True
    note mb = midpoint_bounds [OF True]
    from "1.prems"(1) True
    have l: "tree_inv T G a (acc + G idx) (idx * 2) lb (midpoint lb rb)"
      and r: "tree_inv T G a (acc + G idx) (idx * 2 + 1) (midpoint lb rb + 1) rb"
      by (subst (asm) tree_inv.simps, simp)+
    have "tree_inv T G (\<lambda>p. a p + v) (acc + G idx + v) (idx * 2) lb (midpoint lb rb)"
      using True l mb by (intro "1.IH"(1)) auto
    moreover
    have "tree_inv T G (\<lambda>p. a p + v) (acc + G idx + v) (idx * 2 + 1) (midpoint lb rb + 1) rb"
      using True r mb by (intro "1.IH"(2)) auto
    ultimately show ?thesis
      using top' True by (subst tree_inv.simps) (simp add: add.assoc add.commute add.left_commute)
  qed
qed

section \<open>Steps of the invariant\<close>

lemma tree_inv_top: "tree_inv T G a acc idx lb rb \<Longrightarrow> T idx + acc * of_int (rb - lb + 1) = range_sum a lb rb"
  by (subst (asm) tree_inv.simps) simp

lemma tree_inv_left:
  "tree_inv T G a acc idx lb rb \<Longrightarrow> lb < rb \<Longrightarrow>
   tree_inv T G a (acc + G idx) (idx * 2) lb (midpoint lb rb)"
  by (subst (asm) tree_inv.simps) simp

lemma tree_inv_right:
  "tree_inv T G a acc idx lb rb \<Longrightarrow> lb < rb \<Longrightarrow>
   tree_inv T G a (acc + G idx) (idx * 2 + 1) (midpoint lb rb + 1) rb"
  by (subst (asm) tree_inv.simps) simp

lemma tree_inv_leaf: "T idx + acc = a lb \<Longrightarrow> tree_inv T G a acc idx lb lb"
  by (subst tree_inv.simps) (simp add: range_sum_single)

lemma tree_inv_node:
  "T idx + acc * of_int (rb - lb + 1) = range_sum a lb rb \<Longrightarrow>
   tree_inv T G a (acc + G idx) (idx * 2) lb (midpoint lb rb) \<Longrightarrow>
   tree_inv T G a (acc + G idx) (idx * 2 + 1) (midpoint lb rb + 1) rb \<Longrightarrow>
   tree_inv T G a acc idx lb rb"
  by (subst tree_inv.simps) simp

lemma tree_inv_cover:
  assumes inv: "tree_inv T G a acc idx lb rb"
    and "lb \<le> rb" "1 \<le> idx" "l \<le> lb" "rb \<le> r"
  shows "tree_inv (T(idx := T idx + v * of_int (rb - lb + 1))) (G(idx := G idx + v))
           (range_add v l r a) acc idx lb rb"
proof -
  let ?T = "T(idx := T idx + v * of_int (rb - lb + 1))" and ?G = "G(idx := G idx + v)"
  let ?a = "range_add v l r a"
  have top: "?T idx + acc * of_int (rb - lb + 1) = range_sum ?a lb rb"
    using tree_inv_top [OF inv] assms(2-) by (simp add: range_sum_range_add_inside)
  show ?thesis
  proof (cases "lb < rb")
    case False
    with top show ?thesis by (subst tree_inv.simps) simp
  next
    case True
    note mb = midpoint_bounds [OF True]
    have "tree_inv T G (\<lambda>p. a p + v) (acc + G idx + v) (idx * 2) lb (midpoint lb rb)"
      using tree_inv_left [OF inv True] mb by (intro tree_inv_shift) auto
    then have l: "tree_inv ?T ?G ?a (acc + ?G idx) (idx * 2) lb (midpoint lb rb)"
      by (rule tree_inv_cong)
         (use assms(2-) mb not_desc_left_self [of idx] in \<open>auto simp: range_add_def\<close>)
    have "tree_inv T G (\<lambda>p. a p + v) (acc + G idx + v) (idx * 2 + 1) (midpoint lb rb + 1) rb"
      using tree_inv_right [OF inv True] mb by (intro tree_inv_shift) auto
    then have r: "tree_inv ?T ?G ?a (acc + ?G idx) (idx * 2 + 1) (midpoint lb rb + 1) rb"
      by (rule tree_inv_cong)
         (use assms(2-) mb not_desc_right_self [of idx] in \<open>auto simp: range_add_def\<close>)
    from top l r show ?thesis by (rule tree_inv_node)
  qed
qed

lemma tree_inv_pushed_child:
  assumes inv: "tree_inv T G a (acc + g) c lb rb"
    and c: "1 \<le> c" "T' c = T c + g * of_int (rb - lb + 1)" "G' c = G c + g"
    and rest: "\<And>j. desc c j \<Longrightarrow> j \<noteq> c \<Longrightarrow> T' j = T j \<and> G' j = G j"
    and "lb \<le> rb"
  shows "tree_inv T' G' a acc c lb rb"
proof -
  have top: "T' c + acc * of_int (rb - lb + 1) = range_sum a lb rb"
  proof -
    define k :: int32 where "k = of_int (rb - lb + 1)"
    have "T c + (acc + g) * k = range_sum a lb rb"
      using tree_inv_top [OF inv] by (simp add: k_def)
    then have "T c + g * k + acc * k = range_sum a lb rb"
      by (simp add: algebra_simps)
    with c(2) show ?thesis by (simp add: k_def)
  qed
  show ?thesis
  proof (cases "lb < rb")
    case False
    with top show ?thesis by (subst tree_inv.simps) simp
  next
    case True
    have ne: "j \<noteq> c" if "desc (c * 2) j \<or> desc (c * 2 + 1) j" for j
      using that not_desc_left_self [of c] not_desc_right_self [of c] c(1) by auto
    have l: "tree_inv T' G' a (acc + G' c) (c * 2) lb (midpoint lb rb)"
      by (rule tree_inv_cong [OF tree_inv_left [OF inv True]])
         (use rest ne c in \<open>auto dest: desc_via_left\<close>)
    have r: "tree_inv T' G' a (acc + G' c) (c * 2 + 1) (midpoint lb rb + 1) rb"
      by (rule tree_inv_cong [OF tree_inv_right [OF inv True]])
         (use rest ne c in \<open>auto dest: desc_via_right\<close>)
    from top l r show ?thesis by (rule tree_inv_node)
  qed
qed

text \<open>The effect of the push-down on an inner node, on the arrays read as functions.\<close>

lemma tree_inv_push:
  assumes inv: "tree_inv T G a acc idx lb rb" and "lb < rb" "1 \<le> idx"
    and T': "T' = T(idx * 2 := T (idx * 2) + G idx * of_int (midpoint lb rb - lb + 1),
                    idx * 2 + 1 := T (idx * 2 + 1) + G idx * of_int (rb - midpoint lb rb))"
    and G': "G' = G(idx * 2 := G (idx * 2) + G idx, idx * 2 + 1 := G (idx * 2 + 1) + G idx,
                    idx := 0)"
  shows "tree_inv T' G' a acc (idx * 2) lb (midpoint lb rb) \<and>
         tree_inv T' G' a acc (idx * 2 + 1) (midpoint lb rb + 1) rb \<and>
         T' idx = T idx \<and> G' idx = 0"
proof -
  note mb = midpoint_bounds [OF \<open>lb < rb\<close>]
  have l: "tree_inv T' G' a acc (idx * 2) lb (midpoint lb rb)"
  proof (rule tree_inv_pushed_child [OF tree_inv_left [OF inv \<open>lb < rb\<close>]])
    fix j assume "desc (idx * 2) j" "j \<noteq> idx * 2"
    then show "T' j = T j \<and> G' j = G j"
      using desc_disjoint [of idx j] desc_refl [of "idx * 2 + 1"] not_desc_left_self [of idx]
        \<open>1 \<le> idx\<close> by (auto simp: T' G')
  qed (use \<open>1 \<le> idx\<close> mb in \<open>auto simp: T' G'\<close>)
  have r: "tree_inv T' G' a acc (idx * 2 + 1) (midpoint lb rb + 1) rb"
  proof (rule tree_inv_pushed_child [OF tree_inv_right [OF inv \<open>lb < rb\<close>]])
    fix j assume "desc (idx * 2 + 1) j" "j \<noteq> idx * 2 + 1"
    then show "T' j = T j \<and> G' j = G j"
      using desc_disjoint [of idx j] desc_refl [of "idx * 2"] not_desc_right_self [of idx]
        \<open>1 \<le> idx\<close> by (auto simp: T' G')
  qed (use \<open>1 \<le> idx\<close> mb in \<open>auto simp: T' G'\<close>)
  from l r \<open>1 \<le> idx\<close> show ?thesis by (simp add: T' G')
qed

lemma tree_inv_pull:
  assumes l: "tree_inv T G a acc (idx * 2) lb (midpoint lb rb)"
    and r: "tree_inv T G a acc (idx * 2 + 1) (midpoint lb rb + 1) rb"
    and "G idx = 0" "lb < rb" "1 \<le> idx"
  shows "tree_inv (T(idx := T (idx * 2) + T (idx * 2 + 1))) G a acc idx lb rb"
proof -
  let ?T = "T(idx := T (idx * 2) + T (idx * 2 + 1))"
  note mb = midpoint_bounds [OF \<open>lb < rb\<close>]
  have "range_sum a lb rb = range_sum a lb (midpoint lb rb) + range_sum a (midpoint lb rb + 1) rb"
    using mb by (intro range_sum_split) auto
  then have top: "?T idx + acc * of_int (rb - lb + 1) = range_sum a lb rb"
    using tree_inv_top [OF l] tree_inv_top [OF r] by (simp add: algebra_simps)
  have l': "tree_inv ?T G a (acc + G idx) (idx * 2) lb (midpoint lb rb)"
    by (rule tree_inv_cong [OF l])
       (use \<open>G idx = 0\<close> not_desc_left_self [of idx] \<open>1 \<le> idx\<close> in auto)
  have r': "tree_inv ?T G a (acc + G idx) (idx * 2 + 1) (midpoint lb rb + 1) rb"
    by (rule tree_inv_cong [OF r])
       (use \<open>G idx = 0\<close> not_desc_right_self [of idx] \<open>1 \<le> idx\<close> in auto)
  from top l' r' show ?thesis by (rule tree_inv_node)
qed

section \<open>Arithmetic of \<^verbatim>\<open>int\<close>\<close>

lemma sint_eqI:
  fixes w :: int32
  assumes "w = word_of_int k" "- (2 ^ 31) \<le> k" "k < 2 ^ 31"
  shows "sint w = k"
  using assms by (simp add: signed_of_int signed_take_bit_int_eq_self)

lemma sint_bounds: "- (2 ^ 31) \<le> sint (w :: int32)" "sint (w :: int32) < 2 ^ 31"
  using sint_ge [of w] sint_lt [of w] by simp_all

lemma sint_inject: "sint (x :: int32) = sint (y :: int32) \<longleftrightarrow> x = y"
  using signed_word_eqI [of x y, where ?'a = int] by auto

lemma sint_succ:
  fixes x y :: int32
  assumes "sint x < sint y"
  shows "sint (x + 1) = sint x + 1"
proof (rule sint_eqI)
  show "x + 1 = word_of_int (sint x + 1)" by simp
  show "- (2 ^ 31) \<le> sint x + 1" using sint_bounds(1) [of x] by simp
  show "sint x + 1 < 2 ^ 31" using assms sint_bounds(2) [of y] by simp
qed

lemma sint_children:
  fixes idx :: int32
  assumes "1 \<le> sint idx" "sint idx * 2 + 1 < 2 ^ 31"
  shows "sint (idx * 2) = sint idx * 2" "sint (idx * 2 + 1) = sint idx * 2 + 1"
proof -
  show "sint (idx * 2) = sint idx * 2"
    by (rule sint_eqI) (use assms in simp_all)
  show "sint (idx * 2 + 1) = sint idx * 2 + 1"
    by (rule sint_eqI) (use assms in simp_all)
qed

lemma sint_mid:
  fixes lb rb :: int32
  assumes "sint lb \<le> sint rb" "sint rb - sint lb < 2 ^ 31"
  shows "sint (lb + int_div (rb - lb) 2) = midpoint (sint lb) (sint rb)"
proof -
  have d: "sint (rb - lb) = sint rb - sint lb"
    by (rule sint_eqI) (use assms in simp_all)
  have "(2 :: int32) = word_of_int 2" by simp
  then have two: "sint (2 :: int32) = 2"
    by (rule sint_eqI) simp_all
  have half: "sint (rb - lb) sdiv sint (2 :: int32) = (sint rb - sint lb) div 2"
    using assms(1) by (simp add: d two signed_divide_int_def sgn_if)
  have "0 \<le> (sint rb - sint lb) div 2" "(sint rb - sint lb) div 2 \<le> sint rb - sint lb"
    using assms(1) by simp_all
  then show ?thesis
    unfolding midpoint_def int_div_def half
    by (intro sint_eqI) (use sint_bounds [of lb] sint_bounds [of rb] in simp_all)
qed

lemma size_of_range:
  fixes lb rb :: int32
  shows "rb - lb + 1 = of_int (sint rb - sint lb + 1)"
  by simp

lemma sint_one: "sint (1 :: int32) = 1"
  by simp

lemma sint_zero: "sint (0 :: int32) = 0"
  by simp

section \<open>Reading and writing the arrays\<close>

lemma same_shape_refl: "same_shape s s"
  by (simp add: same_shape_def)

lemma same_shape_trans: "same_shape s s' \<Longrightarrow> same_shape s' s'' \<Longrightarrow> same_shape s s''"
  by (simp add: same_shape_def)

lemma tree_get_ok:
  "guard s \<le> sint i \<Longrightarrow> sint i < int (length (tree s)) \<Longrightarrow> tree_get i s = Some (tr s (sint i))"
  by (simp add: tree_get_def tr_def)

lemma tags_get_ok:
  "guard s \<le> sint i \<Longrightarrow> sint i < int (length (tags s)) \<Longrightarrow> tags_get i s = Some (tg s (sint i))"
  by (simp add: tags_get_def tg_def)

lemma tree_set_ok:
  assumes "guard s \<le> 1" "1 \<le> sint i" "sint i < int (length (tree s))"
  shows "\<exists>s'. tree_set i v s = Some s' \<and> same_shape s s' \<and>
              tr s' = (tr s)(sint i := v) \<and> tg s' = tg s"
  using assms
  by (auto simp: tree_set_def same_shape_def tr_def tg_def fun_eq_iff nth_list_update)

lemma tags_set_ok:
  assumes "guard s \<le> 1" "1 \<le> sint i" "sint i < int (length (tags s))"
  shows "\<exists>s'. tags_set i v s = Some s' \<and> same_shape s s' \<and>
              tg s' = (tg s)(sint i := v) \<and> tr s' = tr s"
  using assms
  by (auto simp: tags_set_def same_shape_def tr_def tg_def fun_eq_iff nth_list_update)

lemma push_down_ok:
  assumes "guard s \<le> 1" "1 \<le> sint idx" "sint idx * 2 + 1 < int (length (tree s))"
    and "int (length (tree s)) \<le> 2 ^ 31" "length (tags s) = length (tree s)"
    and "lb \<noteq> rb"
  shows "\<exists>s'. push_down idx lb rb mid s = Some s' \<and> same_shape s s' \<and>
           tr s' = (tr s)(sint idx * 2 := tr s (sint idx * 2) + tg s (sint idx) * (mid - lb + 1),
                          sint idx * 2 + 1 :=
                            tr s (sint idx * 2 + 1) + tg s (sint idx) * (rb - mid)) \<and>
           tg s' = (tg s)(sint idx * 2 := tg s (sint idx * 2) + tg s (sint idx),
                          sint idx * 2 + 1 := tg s (sint idx * 2 + 1) + tg s (sint idx),
                          sint idx := 0)"
proof (cases "tg s (sint idx) = 0")
  case True
  have "tags_get idx s = Some 0"
    using assms True by (simp add: tags_get_ok)
  then have "push_down idx lb rb mid s = Some s"
    by (simp add: push_down_def)
  moreover have "(tg s)(sint idx * 2 := tg s (sint idx * 2),
      sint idx * 2 + 1 := tg s (sint idx * 2 + 1), sint idx := 0) = tg s"
    using True by (auto simp: fun_eq_iff)
  ultimately show ?thesis
    using True by (simp add: same_shape_refl)
next
  case False
  let ?i = "sint idx" and ?g = "tg s (sint idx)"
  have kids: "sint (idx * 2) = ?i * 2" "sint (idx * 2 + 1) = ?i * 2 + 1"
    using assms(2,3,4) by (simp_all add: sint_children)
  obtain s1 where s1: "tags_set (idx * 2) (tg s (?i * 2) + ?g) s = Some s1" "same_shape s s1"
      "tg s1 = (tg s)(?i * 2 := tg s (?i * 2) + ?g)" "tr s1 = tr s"
    using tags_set_ok [of s "idx * 2"] assms kids by auto
  have sh1: "guard s1 \<le> 1" "length (tags s1) = length (tree s)" "length (tree s1) = length (tree s)"
    using s1(2) assms by (simp_all add: same_shape_def)
  obtain s2 where s2: "tags_set (idx * 2 + 1) (tg s (?i * 2 + 1) + ?g) s1 = Some s2"
      "same_shape s1 s2" "tg s2 = (tg s1)(?i * 2 + 1 := tg s (?i * 2 + 1) + ?g)" "tr s2 = tr s1"
    using tags_set_ok [of s1 "idx * 2 + 1"] assms sh1 kids by auto
  have sh2: "guard s2 \<le> 1" "length (tags s2) = length (tree s)" "length (tree s2) = length (tree s)"
    using s2(2) sh1 by (simp_all add: same_shape_def)
  obtain s3 where s3: "tree_set (idx * 2) (tr s (?i * 2) + ?g * (mid - lb + 1)) s2 = Some s3"
      "same_shape s2 s3" "tr s3 = (tr s2)(?i * 2 := tr s (?i * 2) + ?g * (mid - lb + 1))"
      "tg s3 = tg s2"
    using tree_set_ok [of s2 "idx * 2"] assms sh2 kids by auto
  have sh3: "guard s3 \<le> 1" "length (tags s3) = length (tree s)" "length (tree s3) = length (tree s)"
    using s3(2) sh2 by (simp_all add: same_shape_def)
  obtain s4 where s4: "tree_set (idx * 2 + 1) (tr s (?i * 2 + 1) + ?g * (rb - mid)) s3 = Some s4"
      "same_shape s3 s4" "tr s4 = (tr s3)(?i * 2 + 1 := tr s (?i * 2 + 1) + ?g * (rb - mid))"
      "tg s4 = tg s3"
    using tree_set_ok [of s3 "idx * 2 + 1"] assms sh3 kids by auto
  have sh4: "guard s4 \<le> 1" "length (tags s4) = length (tree s)" "length (tree s4) = length (tree s)"
    using s4(2) sh3 by (simp_all add: same_shape_def)
  obtain s5 where s5: "tags_set idx 0 s4 = Some s5" "same_shape s4 s5"
      "tg s5 = (tg s4)(?i := 0)" "tr s5 = tr s4"
    using tags_set_ok [of s4 idx] assms sh4 by auto
  have g0: "tags_get idx s = Some ?g"
    using assms by (simp add: tags_get_ok)
  have r1: "tags_get (idx * 2) s = Some (tg s (?i * 2))"
    using assms kids by (simp add: tags_get_ok)
  have g1: "tags_get idx s1 = Some ?g" "tags_get (idx * 2 + 1) s1 = Some (tg s (?i * 2 + 1))"
    using assms sh1 kids s1(3) by (simp_all add: tags_get_ok)
  have g2: "tags_get idx s2 = Some ?g" "tree_get (idx * 2) s2 = Some (tr s (?i * 2))"
    using assms sh2 kids s1(3,4) s2(3,4) by (simp_all add: tags_get_ok tree_get_ok)
  have g3: "tags_get idx s3 = Some ?g" "tree_get (idx * 2 + 1) s3 = Some (tr s (?i * 2 + 1))"
    using assms sh3 kids s1(3,4) s2(3,4) s3(3,4) by (simp_all add: tags_get_ok tree_get_ok)
  have "push_down idx lb rb mid s = Some s5"
    using False assms(6) g0 r1 s1(1) g1 s2(1) g2 s3(1) g3 s4(1) s5(1)
    by (simp add: push_down_def)
  moreover have "same_shape s s5"
    using s1(2) s2(2) s3(2) s4(2) s5(2) by (simp add: same_shape_def)
  moreover have "tr s5 = (tr s)(?i * 2 := tr s (?i * 2) + ?g * (mid - lb + 1),
                          ?i * 2 + 1 := tr s (?i * 2 + 1) + ?g * (rb - mid))"
    by (simp add: s5 s4 s3 s2 s1)
  moreover have "tg s5 = (tg s)(?i * 2 := tg s (?i * 2) + ?g,
                          ?i * 2 + 1 := tg s (?i * 2 + 1) + ?g, ?i := 0)"
    by (simp add: s5 s4 s3 s2 s1)
  ultimately show ?thesis by blast
qed

section \<open>Correctness of the recursive update\<close>

lemma frame_refl: "frame i s s"
  by (simp add: frame_def same_shape_refl)

lemma frame_trans: "frame i s s' \<Longrightarrow> frame i s' s'' \<Longrightarrow> frame i s s''"
  by (auto simp: frame_def same_shape_def)

lemma frame_left: "frame (i * 2) s s' \<Longrightarrow> frame i s s'"
  by (auto simp: frame_def dest: desc_via_left)

lemma frame_right: "frame (i * 2 + 1) s s' \<Longrightarrow> frame i s s'"
  by (auto simp: frame_def dest: desc_via_right)

lemma frame_same_shape: "frame i s s' \<Longrightarrow> same_shape s s'"
  by (simp add: frame_def)

lemma frame_lengths:
  "frame i s s' \<Longrightarrow>
   length (tree s') = length (tree s) \<and> length (tags s') = length (tags s) \<and> guard s' = guard s"
  by (simp add: frame_def same_shape_def)

lemma tree_inv_frame:
  assumes "tree_inv (tr s) (tg s) a acc c lb rb" "frame d s s'"
    and "\<And>j. desc c j \<Longrightarrow> \<not> desc d j"
  shows "tree_inv (tr s') (tg s') a acc c lb rb"
  by (rule tree_inv_cong [OF assms(1)]) (use assms(2,3) in \<open>auto simp: frame_def\<close>)

lemma fits_here: "fits n idx lb rb \<Longrightarrow> 1 \<le> idx \<and> idx < n"
  by (subst (asm) fits.simps) simp

lemma fits_left: "fits n idx lb rb \<Longrightarrow> lb < rb \<Longrightarrow> fits n (idx * 2) lb (midpoint lb rb)"
  by (subst (asm) fits.simps) simp

lemma fits_right: "fits n idx lb rb \<Longrightarrow> lb < rb \<Longrightarrow> fits n (idx * 2 + 1) (midpoint lb rb + 1) rb"
  by (subst (asm) fits.simps) simp

lemma priv_add_covered:
  assumes "guard s \<le> 1" "1 \<le> sint idx" "sint idx < int (length (tree s))"
    and "length (tags s) = length (tree s)" "l \<le>s lb" "rb \<le>s r"
  shows "\<exists>s'. priv_add v idx l r lb rb s = Some s' \<and> same_shape s s' \<and>
           tr s' = (tr s)(sint idx := tr s (sint idx) + v * (rb - lb + 1)) \<and>
           tg s' = (tg s)(sint idx := tg s (sint idx) + v)"
proof -
  obtain s1 where s1: "tree_set idx (tr s (sint idx) + v * (rb - lb + 1)) s = Some s1"
      "same_shape s s1" "tr s1 = (tr s)(sint idx := tr s (sint idx) + v * (rb - lb + 1))"
      "tg s1 = tg s"
    using tree_set_ok [of s idx] assms by auto
  have sh1: "guard s1 \<le> 1" "length (tags s1) = length (tree s)"
    using s1(2) assms by (simp_all add: same_shape_def)
  obtain s2 where s2: "tags_set idx (tg s (sint idx) + v) s1 = Some s2" "same_shape s1 s2"
      "tg s2 = (tg s1)(sint idx := tg s (sint idx) + v)" "tr s2 = tr s1"
    using tags_set_ok [of s1 idx] assms sh1 by auto
  have "tags_get idx s1 = Some (tg s (sint idx))"
    using assms sh1 s1(4) by (simp add: tags_get_ok)
  moreover have "tree_get idx s = Some (tr s (sint idx))"
    using assms by (simp add: tree_get_ok)
  ultimately have "priv_add v idx l r lb rb s = Some s2"
    using assms(5,6) s1(1) s2(1) by (subst priv_add.simps) simp
  moreover have "same_shape s s2"
    using s1(2) s2(2) by (rule same_shape_trans)
  ultimately show ?thesis
    using s1 s2 by simp
qed

lemma priv_add_correct:
  assumes "fits n (sint idx) (sint lb) (sint rb)"
    and "int (length (tree s)) = n" "n \<le> 2 ^ 31" "length (tags s) = length (tree s)"
    and "guard s \<le> 1"
    and "tree_inv (tr s) (tg s) a acc (sint idx) (sint lb) (sint rb)"
    and "sint lb \<le> sint rb" "sint rb - sint lb < 2 ^ 31"
    and "sint l \<le> sint rb" "sint lb \<le> sint r"
  shows "\<exists>s'. priv_add v idx l r lb rb s = Some s' \<and> frame (sint idx) s s' \<and>
           tree_inv (tr s') (tg s') (range_add v (sint l) (sint r) a) acc
             (sint idx) (sint lb) (sint rb)"
  using assms
proof (induction "nat (sint rb - sint lb)" arbitrary: idx lb rb s a acc rule: less_induct)
  case less
  note fit = less.prems(1) and len = less.prems(2,3,4) and grd = less.prems(5)
    and inv = less.prems(6)
  note here = fits_here [OF fit]
  let ?i = "sint idx" and ?L = "sint lb" and ?R = "sint rb"
  let ?a = "range_add v (sint l) (sint r) a"
  show ?case
  proof (cases "l \<le>s lb \<and> rb \<le>s r")
    case True
    obtain s' where s': "priv_add v idx l r lb rb s = Some s'" "same_shape s s'"
        "tr s' = (tr s)(?i := tr s ?i + v * (rb - lb + 1))"
        "tg s' = (tg s)(?i := tg s ?i + v)"
      using priv_add_covered [of s idx l lb rb r v] here len grd True by auto
    have "frame ?i s s'"
      using s' by (auto simp: frame_def desc_refl)
    moreover have "tree_inv (tr s') (tg s') ?a acc ?i ?L ?R"
      unfolding s' size_of_range [of rb lb]
      using inv less.prems(7) here True by (intro tree_inv_cover) (auto simp: word_sle_eq)
    ultimately show ?thesis using s'(1) by blast
  next
    case False
    with less.prems(7,9,10) have lt: "?L < ?R" by (auto simp: word_sle_eq)
    then have ne: "lb \<noteq> rb" by auto
    define m where "m = midpoint ?L ?R"
    define mid where "mid = lb + int_div (rb - lb) 2"
    note mb = midpoint_bounds [OF lt, folded m_def]
    have sm: "sint mid = m"
      unfolding mid_def m_def using less.prems(7,8) by (rule sint_mid)
    have sm1: "sint (mid + 1) = m + 1"
      using sint_succ [of mid rb] mb sm by simp
    note fl = fits_left [OF fit lt, folded m_def] and fr = fits_right [OF fit lt, folded m_def]
    have kids: "?i * 2 + 1 < int (length (tree s))"
      using fits_here [OF fr] len by simp
    have sk: "sint (idx * 2) = ?i * 2" "sint (idx * 2 + 1) = ?i * 2 + 1"
      using here kids len by (simp_all add: sint_children)
    have dis_l: "\<not> desc (?i * 2 + 1) j" if "desc (?i * 2) j" for j
      using desc_disjoint [of ?i j] that here by blast
    have dis_r: "\<not> desc (?i * 2) j" if "desc (?i * 2 + 1) j" for j
      using desc_disjoint [of ?i j] that here by blast
    have sizes: "mid - lb + 1 = of_int (m - ?L + 1)" "rb - mid = of_int (?R - m)"
      by (simp_all flip: sm)
    \<comment> \<open>the push-down\<close>
    obtain s1 where s1: "push_down idx lb rb mid s = Some s1" "same_shape s s1"
        "tr s1 = (tr s)(?i * 2 := tr s (?i * 2) + tg s ?i * of_int (m - ?L + 1),
                        ?i * 2 + 1 := tr s (?i * 2 + 1) + tg s ?i * of_int (?R - m))"
        "tg s1 = (tg s)(?i * 2 := tg s (?i * 2) + tg s ?i,
                        ?i * 2 + 1 := tg s (?i * 2 + 1) + tg s ?i, ?i := 0)"
      using push_down_ok [of s idx lb rb mid] here kids len grd ne unfolding sizes by auto
    have pushed: "tree_inv (tr s1) (tg s1) a acc (?i * 2) ?L m \<and>
                  tree_inv (tr s1) (tg s1) a acc (?i * 2 + 1) (m + 1) ?R \<and>
                  tr s1 ?i = tr s ?i \<and> tg s1 ?i = 0"
      unfolding m_def using inv lt here s1(3,4) [unfolded m_def]
      by (intro tree_inv_push [where T = "tr s" and G = "tg s"]) auto
    have f1: "frame ?i s s1"
      using s1 here desc_left [OF desc_refl, of ?i] desc_right [OF desc_refl, of ?i]
      by (auto simp: frame_def desc_refl)
    have len1: "int (length (tree s1)) = n" "length (tags s1) = length (tree s1)" "guard s1 \<le> 1"
      using s1(2) len grd by (simp_all add: same_shape_def)
    \<comment> \<open>the left child\<close>
    have "\<exists>s2. (if l \<le>s mid then priv_add v (idx * 2) l r lb mid s1 else Some s1) = Some s2 \<and>
            frame (?i * 2) s1 s2 \<and> tree_inv (tr s2) (tg s2) ?a acc (?i * 2) ?L m"
    proof (cases "l \<le>s mid")
      case True
      have "\<exists>s'. priv_add v (idx * 2) l r lb mid s1 = Some s' \<and> frame (sint (idx * 2)) s1 s' \<and>
           tree_inv (tr s') (tg s') ?a acc (sint (idx * 2)) ?L (sint mid)"
        using True mb lt less.prems(8,10) pushed fl
        by (intro less.hyps len1 len(2)) (simp_all add: sm sk word_sle_eq)
      with True show ?thesis by (simp add: sm sk)
    next
      case False
      have "tree_inv (tr s1) (tg s1) ?a acc (?i * 2) ?L m"
        by (rule tree_inv_cong [where T = "tr s1" and G = "tg s1" and a = a])
           (use pushed False in \<open>auto simp: range_add_def word_sle_eq sm\<close>)
      with False show ?thesis by (simp add: frame_refl)
    qed
    then obtain s2 where s2:
      "(if l \<le>s mid then priv_add v (idx * 2) l r lb mid s1 else Some s1) = Some s2"
      "frame (?i * 2) s1 s2" "tree_inv (tr s2) (tg s2) ?a acc (?i * 2) ?L m"
      by blast
    have len2: "int (length (tree s2)) = n" "length (tags s2) = length (tree s2)" "guard s2 \<le> 1"
      using frame_lengths [OF s2(2)] len1 by simp_all
    have inv2r: "tree_inv (tr s2) (tg s2) a acc (?i * 2 + 1) (m + 1) ?R"
      using pushed by (intro tree_inv_frame [OF _ s2(2) dis_r]) simp
    \<comment> \<open>the right child\<close>
    have "\<exists>s3. (if mid + 1 \<le>s r then priv_add v (idx * 2 + 1) l r (mid + 1) rb s2 else Some s2)
              = Some s3 \<and>
            frame (?i * 2 + 1) s2 s3 \<and> tree_inv (tr s3) (tg s3) ?a acc (?i * 2 + 1) (m + 1) ?R"
    proof (cases "mid + 1 \<le>s r")
      case True
      have "\<exists>s'. priv_add v (idx * 2 + 1) l r (mid + 1) rb s2 = Some s' \<and>
           frame (sint (idx * 2 + 1)) s2 s' \<and>
           tree_inv (tr s') (tg s') ?a acc (sint (idx * 2 + 1)) (sint (mid + 1)) ?R"
        using True mb lt less.prems(8,9) inv2r fr
        by (intro less.hyps len2 len(2)) (simp_all add: sm1 sk word_sle_eq)
      with True show ?thesis by (simp add: sm1 sk)
    next
      case False
      have "tree_inv (tr s2) (tg s2) ?a acc (?i * 2 + 1) (m + 1) ?R"
        by (rule tree_inv_cong [where T = "tr s2" and G = "tg s2" and a = a])
           (use inv2r False in \<open>auto simp: range_add_def word_sle_eq sm1\<close>)
      with False show ?thesis by (simp add: frame_refl)
    qed
    then obtain s3 where s3:
      "(if mid + 1 \<le>s r then priv_add v (idx * 2 + 1) l r (mid + 1) rb s2 else Some s2) = Some s3"
      "frame (?i * 2 + 1) s2 s3" "tree_inv (tr s3) (tg s3) ?a acc (?i * 2 + 1) (m + 1) ?R"
      by blast
    have len3: "int (length (tree s3)) = n" "length (tags s3) = length (tree s3)" "guard s3 \<le> 1"
      using frame_lengths [OF s3(2)] len2 by simp_all
    have inv3l: "tree_inv (tr s3) (tg s3) ?a acc (?i * 2) ?L m"
      by (rule tree_inv_frame [OF s2(3) s3(2) dis_l])
    have tag3: "tg s3 ?i = 0"
      using pushed s2(2) s3(2) not_desc_left_self [of ?i] not_desc_right_self [of ?i] here
      by (simp add: frame_def)
    \<comment> \<open>the aggregate of the node\<close>
    obtain s4 where s4: "tree_set idx (tr s3 (?i * 2) + tr s3 (?i * 2 + 1)) s3 = Some s4"
        "same_shape s3 s4" "tr s4 = (tr s3)(?i := tr s3 (?i * 2) + tr s3 (?i * 2 + 1))"
        "tg s4 = tg s3"
      using tree_set_ok [of s3 idx] here len3 by auto
    have reads: "tree_get (idx * 2) s3 = Some (tr s3 (?i * 2))"
      "tree_get (idx * 2 + 1) s3 = Some (tr s3 (?i * 2 + 1))"
      using here kids len len3 sk by (simp_all add: tree_get_ok)
    have run: "priv_add v idx l r lb rb s = Some s4"
      using s1(1) s2(1) s3(1) s4(1) reads
      by (subst priv_add.simps, subst if_not_P [OF False])
         (simp add: mid_def [symmetric])
    have "frame ?i s3 s4"
      using s4 by (auto simp: frame_def desc_refl)
    with f1 frame_left [OF s2(2)] frame_right [OF s3(2)] have fr4: "frame ?i s s4"
      by (blast intro: frame_trans)
    have "tree_inv (tr s4) (tg s4) ?a acc ?i ?L ?R"
      unfolding s4 using inv3l s3(3) tag3 lt here
      by (intro tree_inv_pull) (auto simp: m_def)
    with run fr4 show ?thesis by blast
  qed
qed

section \<open>Correctness of the recursive query\<close>

lemma priv_get_sum_correct:
  assumes "fits n (sint idx) (sint lb) (sint rb)"
    and "int (length (tree s)) = n" "n \<le> 2 ^ 31" "length (tags s) = length (tree s)"
    and "guard s \<le> 1"
    and "tree_inv (tr s) (tg s) a 0 (sint idx) (sint lb) (sint rb)"
    and "sint lb \<le> sint rb" "sint rb - sint lb < 2 ^ 31"
    and "sint l \<le> sint rb" "sint lb \<le> sint r"
  shows "\<exists>s'. priv_get_sum idx l r lb rb s =
             Some (range_sum a (max (sint l) (sint lb)) (min (sint r) (sint rb)), s') \<and>
           frame (sint idx) s s' \<and> tree_inv (tr s') (tg s') a 0 (sint idx) (sint lb) (sint rb)"
  using assms
proof (induction "nat (sint rb - sint lb)" arbitrary: idx lb rb s rule: less_induct)
  case less
  note fit = less.prems(1) and len = less.prems(2,3,4) and grd = less.prems(5)
    and inv = less.prems(6)
  note here = fits_here [OF fit]
  let ?i = "sint idx" and ?L = "sint lb" and ?R = "sint rb"
  let ?l = "sint l" and ?r = "sint r"
  show ?case
  proof (cases "l \<le>s lb \<and> rb \<le>s r")
    case True
    have "tr s ?i = range_sum a ?L ?R"
      using tree_inv_top [OF inv] by simp
    moreover have "max ?l ?L = ?L" "min ?r ?R = ?R"
      using True by (simp_all add: word_sle_eq)
    moreover have "tree_get idx s = Some (tr s ?i)"
      using here len grd by (simp add: tree_get_ok)
    ultimately have "priv_get_sum idx l r lb rb s =
        Some (range_sum a (max ?l ?L) (min ?r ?R), s)"
      using True by (subst priv_get_sum.simps) simp
    with inv show ?thesis
      using frame_refl by blast
  next
    case False
    with less.prems(7,9,10) have lt: "?L < ?R" by (auto simp: word_sle_eq)
    then have ne: "lb \<noteq> rb" by auto
    define m where "m = midpoint ?L ?R"
    define mid where "mid = lb + int_div (rb - lb) 2"
    note mb = midpoint_bounds [OF lt, folded m_def]
    have sm: "sint mid = m"
      unfolding mid_def m_def using less.prems(7,8) by (rule sint_mid)
    have sm1: "sint (mid + 1) = m + 1"
      using sint_succ [of mid rb] mb sm by simp
    note fl = fits_left [OF fit lt, folded m_def] and fr = fits_right [OF fit lt, folded m_def]
    have kids: "?i * 2 + 1 < int (length (tree s))"
      using fits_here [OF fr] len by simp
    have sk: "sint (idx * 2) = ?i * 2" "sint (idx * 2 + 1) = ?i * 2 + 1"
      using here kids len by (simp_all add: sint_children)
    have dis_l: "\<not> desc (?i * 2 + 1) j" if "desc (?i * 2) j" for j
      using desc_disjoint [of ?i j] that here by blast
    have dis_r: "\<not> desc (?i * 2) j" if "desc (?i * 2 + 1) j" for j
      using desc_disjoint [of ?i j] that here by blast
    have sizes: "mid - lb + 1 = of_int (m - ?L + 1)" "rb - mid = of_int (?R - m)"
      by (simp_all flip: sm)
    \<comment> \<open>the push-down\<close>
    obtain s1 where s1: "push_down idx lb rb mid s = Some s1" "same_shape s s1"
        "tr s1 = (tr s)(?i * 2 := tr s (?i * 2) + tg s ?i * of_int (m - ?L + 1),
                        ?i * 2 + 1 := tr s (?i * 2 + 1) + tg s ?i * of_int (?R - m))"
        "tg s1 = (tg s)(?i * 2 := tg s (?i * 2) + tg s ?i,
                        ?i * 2 + 1 := tg s (?i * 2 + 1) + tg s ?i, ?i := 0)"
      using push_down_ok [of s idx lb rb mid] here kids len grd ne unfolding sizes by auto
    have pushed: "tree_inv (tr s1) (tg s1) a 0 (?i * 2) ?L m \<and>
                  tree_inv (tr s1) (tg s1) a 0 (?i * 2 + 1) (m + 1) ?R \<and>
                  tr s1 ?i = tr s ?i \<and> tg s1 ?i = 0"
      unfolding m_def using inv lt here s1(3,4) [unfolded m_def]
      by (intro tree_inv_push [where T = "tr s" and G = "tg s"]) auto
    have f1: "frame ?i s s1"
      using s1 here desc_left [OF desc_refl, of ?i] desc_right [OF desc_refl, of ?i]
      by (auto simp: frame_def desc_refl)
    have len1: "int (length (tree s1)) = n" "length (tags s1) = length (tree s1)" "guard s1 \<le> 1"
      using s1(2) len grd by (simp_all add: same_shape_def)
    \<comment> \<open>the left child\<close>
    let ?xl = "range_sum a (max ?l ?L) (min ?r m)"
    have "\<exists>s2. (if l \<le>s mid
                 then priv_get_sum (idx * 2) l r lb mid s1 \<bind> (\<lambda>(x, s). Some (0 + x, s))
                 else Some (0, s1)) = Some (?xl, s2) \<and>
            frame (?i * 2) s1 s2 \<and> tree_inv (tr s2) (tg s2) a 0 (?i * 2) ?L m"
    proof (cases "l \<le>s mid")
      case True
      have "\<exists>s'. priv_get_sum (idx * 2) l r lb mid s1 =
             Some (range_sum a (max ?l ?L) (min ?r (sint mid)), s') \<and>
           frame (sint (idx * 2)) s1 s' \<and>
           tree_inv (tr s') (tg s') a 0 (sint (idx * 2)) ?L (sint mid)"
        using True mb lt less.prems(8,10) pushed fl
        by (intro less.hyps len1 len(2)) (simp_all add: sm sk word_sle_eq)
      with True show ?thesis by (auto simp: sm sk)
    next
      case False
      then have "?xl = 0"
        using mb by (intro range_sum_empty) (auto simp: word_sle_eq sm)
      with False pushed show ?thesis by (simp add: frame_refl)
    qed
    then obtain s2 where s2:
      "(if l \<le>s mid
        then priv_get_sum (idx * 2) l r lb mid s1 \<bind> (\<lambda>(x, s). Some (0 + x, s))
        else Some (0, s1)) = Some (?xl, s2)"
      "frame (?i * 2) s1 s2" "tree_inv (tr s2) (tg s2) a 0 (?i * 2) ?L m"
      by blast
    have len2: "int (length (tree s2)) = n" "length (tags s2) = length (tree s2)" "guard s2 \<le> 1"
      using frame_lengths [OF s2(2)] len1 by simp_all
    have inv2r: "tree_inv (tr s2) (tg s2) a 0 (?i * 2 + 1) (m + 1) ?R"
      using pushed by (intro tree_inv_frame [OF _ s2(2) dis_r]) simp
    \<comment> \<open>the right child\<close>
    let ?xr = "range_sum a (max ?l (m + 1)) (min ?r ?R)"
    have "\<exists>s3. (if mid + 1 \<le>s r
                 then priv_get_sum (idx * 2 + 1) l r (mid + 1) rb s2 \<bind>
                      (\<lambda>(x, s). Some (?xl + x, s))
                 else Some (?xl, s2)) = Some (?xl + ?xr, s3) \<and>
            frame (?i * 2 + 1) s2 s3 \<and> tree_inv (tr s3) (tg s3) a 0 (?i * 2 + 1) (m + 1) ?R"
    proof (cases "mid + 1 \<le>s r")
      case True
      have "\<exists>s'. priv_get_sum (idx * 2 + 1) l r (mid + 1) rb s2 =
             Some (range_sum a (max ?l (sint (mid + 1))) (min ?r ?R), s') \<and>
           frame (sint (idx * 2 + 1)) s2 s' \<and>
           tree_inv (tr s') (tg s') a 0 (sint (idx * 2 + 1)) (sint (mid + 1)) ?R"
        using True mb lt less.prems(8,9) inv2r fr
        by (intro less.hyps len2 len(2)) (simp_all add: sm1 sk word_sle_eq)
      with True show ?thesis by (auto simp: sm1 sk)
    next
      case False
      then have "?xr = 0"
        using mb by (intro range_sum_empty) (auto simp: word_sle_eq sm1)
      with False inv2r show ?thesis by (simp add: frame_refl)
    qed
    then obtain s3 where s3:
      "(if mid + 1 \<le>s r
        then priv_get_sum (idx * 2 + 1) l r (mid + 1) rb s2 \<bind> (\<lambda>(x, s). Some (?xl + x, s))
        else Some (?xl, s2)) = Some (?xl + ?xr, s3)"
      "frame (?i * 2 + 1) s2 s3" "tree_inv (tr s3) (tg s3) a 0 (?i * 2 + 1) (m + 1) ?R"
      by blast
    have inv3l: "tree_inv (tr s3) (tg s3) a 0 (?i * 2) ?L m"
      by (rule tree_inv_frame [OF s2(3) s3(2) dis_l])
    have keep: "tg s3 ?i = 0" "tr s3 ?i = tr s ?i"
      using pushed s2(2) s3(2) not_desc_left_self [of ?i] not_desc_right_self [of ?i] here
      by (simp_all add: frame_def)
    \<comment> \<open>the sum\<close>
    have total: "?xl + ?xr = range_sum a (max ?l ?L) (min ?r ?R)"
    proof (cases "?l \<le> m")
      case False
      then have "?xl = 0" "max ?l (m + 1) = max ?l ?L"
        using mb by (auto intro: range_sum_empty)
      then show ?thesis by simp
    next
      case l: True
      show ?thesis
      proof (cases "?r \<ge> m + 1")
        case False
        then have "?xr = 0" "min ?r m = min ?r ?R"
          using mb by (auto intro: range_sum_empty)
        then show ?thesis by simp
      next
        case True
        then have "min ?r m = m" "max ?l (m + 1) = m + 1"
          using l by auto
        moreover have "range_sum a (max ?l ?L) (min ?r ?R) =
            range_sum a (max ?l ?L) m + range_sum a (m + 1) (min ?r ?R)"
          using l True mb by (intro range_sum_split) auto
        ultimately show ?thesis by simp
      qed
    qed
    have run: "priv_get_sum idx l r lb rb s = Some (range_sum a (max ?l ?L) (min ?r ?R), s3)"
      using s1(1) s2(1) s3(1) total
      by (subst priv_get_sum.simps, subst if_not_P [OF False])
         (simp add: mid_def [symmetric])
    have fr3: "frame ?i s s3"
      using f1 frame_left [OF s2(2)] frame_right [OF s3(2)] by (blast intro: frame_trans)
    have "tree_inv (tr s3) (tg s3) a 0 ?i ?L ?R"
      using tree_inv_top [OF inv] inv3l s3(3) keep
      by (rule_tac tree_inv_node) (simp_all add: m_def)
    with run fr3 show ?thesis by blast
  qed
qed

section \<open>The size of the arrays and the construction\<close>

lemma fits_pow:
  assumes "1 \<le> idx" "lb \<le> rb" "rb - lb + 1 \<le> 2 ^ h" "(idx + 1) * 2 ^ h \<le> n"
  shows "fits n idx lb rb"
  using assms
proof (induction h arbitrary: idx lb rb)
  case 0
  then have "lb = rb" "idx < n" by simp_all
  with "0.prems"(1) show ?case by (subst fits.simps) simp
next
  case (Suc h)
  define P :: int where "P = 2 ^ h"
  have P: "1 \<le> P" by (simp add: P_def)
  have size: "rb - lb + 1 \<le> 2 * P" and top: "(idx + 1) * (2 * P) \<le> n"
    using Suc.prems by (simp_all add: P_def)
  have "idx * (2 * P) + 2 * P \<le> n"
    using top by (simp add: algebra_simps)
  moreover have "0 \<le> idx * (2 * P)" "idx \<le> idx * (2 * P)"
    using Suc.prems(1) P by (simp_all add: mult_le_cancel_left1)
  ultimately have here: "idx < n" "idx * (2 * P) + P \<le> n"
    using P by linarith+
  show ?case
  proof (cases "lb < rb")
    case False
    with Suc.prems(1) here show ?thesis by (subst fits.simps) simp
  next
    case True
    have m: "midpoint lb rb = lb + (rb - lb) div 2"
      by (simp add: midpoint_def)
    have l: "fits n (idx * 2) lb (midpoint lb rb)"
    proof (rule Suc.IH)
      show "midpoint lb rb - lb + 1 \<le> 2 ^ h"
        using size True unfolding m P_def [symmetric] by linarith
      show "(idx * 2 + 1) * 2 ^ h \<le> n"
        using here(2) by (simp add: P_def algebra_simps)
    qed (use Suc.prems(1) True m in auto)
    have r: "fits n (idx * 2 + 1) (midpoint lb rb + 1) rb"
    proof (rule Suc.IH)
      show "rb - (midpoint lb rb + 1) + 1 \<le> 2 ^ h"
        using size True unfolding m P_def [symmetric] by linarith
      show "(idx * 2 + 1 + 1) * 2 ^ h \<le> n"
        using top by (simp add: P_def algebra_simps)
      show "midpoint lb rb + 1 \<le> rb"
        using midpoint_bounds [OF True] by simp
    qed (use Suc.prems(1) in auto)
    from l r Suc.prems(1) here(1) show ?thesis by (subst fits.simps) simp
  qed
qed

lemma fits_root:
  assumes "lb \<le> rb"
  shows "fits (4 * (rb - lb + 1)) 1 lb rb"
proof -
  define k where "k = nat (rb - lb + 1)"
  have "1 \<le> k" using assms by (simp add: k_def)
  then obtain h where h: "2 ^ h \<le> k" "k < 2 ^ (h + 1)"
    using ex_power_ivl1 [of 2 k] by auto
  have k: "int k = rb - lb + 1" using assms by (simp add: k_def)
  have "rb - lb + 1 \<le> 2 ^ (h + 1)"
    using h(2) k by (metis less_imp_le of_nat_le_iff of_nat_numeral of_nat_power)
  moreover have "int (2 ^ h) \<le> int k"
    using h(1) by (rule iffD2 [OF of_nat_le_iff])
  then have "(1 + 1) * 2 ^ (h + 1) \<le> 4 * (rb - lb + 1)"
    using k by simp
  ultimately show ?thesis
    using assms by (intro fits_pow [where h = "h + 1"]) auto
qed

lemma tree_inv_zeros:
  assumes "fits n idx lb rb" "\<And>j. 1 \<le> j \<Longrightarrow> j < n \<Longrightarrow> T j = 0 \<and> G j = 0"
  shows "tree_inv T G zeros 0 idx lb rb"
  using assms
proof (induction n idx lb rb rule: fits.induct)
  case (1 n idx lb rb)
  note here = fits_here [OF "1.prems"(1)]
  have z: "T idx = 0" "G idx = 0"
    using "1.prems"(2) here by simp_all
  have top: "T idx + 0 * of_int (rb - lb + 1) = range_sum zeros lb rb"
    using z by (simp add: range_sum_sum zeros_def)
  show ?case
  proof (cases "lb < rb")
    case False
    with top show ?thesis by (subst tree_inv.simps) simp
  next
    case True
    have "tree_inv T G zeros 0 (idx * 2) lb (midpoint lb rb)"
      using "1.IH"(1) [OF True fits_left [OF "1.prems"(1) True]] "1.prems"(2) by blast
    moreover have "tree_inv T G zeros 0 (idx * 2 + 1) (midpoint lb rb + 1) rb"
      using "1.IH"(2) [OF True fits_right [OF "1.prems"(1) True]] "1.prems"(2) by blast
    ultimately show ?thesis
      using top z by (rule_tac tree_inv_node) simp_all
  qed
qed


lemma priv_build_correct:
  assumes "fits n (sint idx) (sint lb) (sint rb)"
    and "int (length (tree s)) = n" "n \<le> 2 ^ 31" "length (tags s) = length (tree s)"
    and "guard s \<le> 1"
    and "0 \<le> sint lb" "sint rb < int (length vec)" "sint lb \<le> sint rb"
    and "\<And>j. 1 \<le> j \<Longrightarrow> j < n \<Longrightarrow> tg s j = 0"
  shows "\<exists>s'. priv_build idx lb rb vec s = Some s' \<and> frame (sint idx) s s' \<and> tg s' = tg s \<and>
           tree_inv (tr s') (tg s') (of_vec vec) 0 (sint idx) (sint lb) (sint rb)"
  using assms
proof (induction "nat (sint rb - sint lb)" arbitrary: idx lb rb s rule: less_induct)
  case less
  note fit = less.prems(1) and len = less.prems(2,3,4) and grd = less.prems(5)
    and tags0 = less.prems(9)
  note here = fits_here [OF fit]
  let ?i = "sint idx" and ?L = "sint lb" and ?R = "sint rb"
  let ?a = "of_vec vec"
  show ?case
  proof (cases "lb = rb")
    case True
    have get: "vec_get vec lb = Some (?a ?L)"
      using less.prems(6,7) True by (simp add: vec_get_def of_vec_def)
    obtain s' where s': "tree_set idx (?a ?L) s = Some s'" "same_shape s s'"
        "tr s' = (tr s)(?i := ?a ?L)" "tg s' = tg s"
      using tree_set_ok [of s idx] here len grd by auto
    have "priv_build idx lb rb vec s = Some s'"
      using True get s'(1) by (subst priv_build.simps) simp
    moreover have "frame ?i s s'"
      using s' by (auto simp: frame_def desc_refl)
    moreover have "tree_inv (tr s') (tg s') ?a 0 ?i ?L ?R"
      unfolding True [symmetric] by (rule tree_inv_leaf) (simp add: s')
    ultimately show ?thesis using s'(4) by blast
  next
    case False
    with less.prems(8) have lt: "?L < ?R"
      using sint_inject [of lb rb] by auto
    have small: "?R - ?L < 2 ^ 31"
      using less.prems(6) sint_bounds(2) [of rb] by simp
    define m where "m = midpoint ?L ?R"
    define mid where "mid = lb + int_div (rb - lb) 2"
    note mb = midpoint_bounds [OF lt, folded m_def]
    have sm: "sint mid = m"
      unfolding mid_def m_def using less.prems(8) small by (rule sint_mid)
    have sm1: "sint (mid + 1) = m + 1"
      using sint_succ [of mid rb] mb sm by simp
    note fl = fits_left [OF fit lt, folded m_def] and fr = fits_right [OF fit lt, folded m_def]
    have kids: "?i * 2 + 1 < int (length (tree s))"
      using fits_here [OF fr] len by simp
    have sk: "sint (idx * 2) = ?i * 2" "sint (idx * 2 + 1) = ?i * 2 + 1"
      using here kids len by (simp_all add: sint_children)
    have dis_l: "\<not> desc (?i * 2 + 1) j" if "desc (?i * 2) j" for j
      using desc_disjoint [of ?i j] that here by blast
    have "\<exists>s'. priv_build (idx * 2) lb mid vec s = Some s' \<and> frame (sint (idx * 2)) s s' \<and>
            tg s' = tg s \<and>
            tree_inv (tr s') (tg s') ?a 0 (sint (idx * 2)) ?L (sint mid)"
      using mb lt less.prems(6,7) fl tags0 grd
      by (intro less.hyps len) (simp_all add: sm sk)
    then obtain s1 where s1: "priv_build (idx * 2) lb mid vec s = Some s1" "frame (?i * 2) s s1"
        "tg s1 = tg s" "tree_inv (tr s1) (tg s1) ?a 0 (?i * 2) ?L m"
      by (auto simp: sm sk)
    have len1: "int (length (tree s1)) = n" "length (tags s1) = length (tree s1)" "guard s1 \<le> 1"
      using frame_lengths [OF s1(2)] len grd by simp_all
    have "\<exists>s'. priv_build (idx * 2 + 1) (mid + 1) rb vec s1 = Some s' \<and>
            frame (sint (idx * 2 + 1)) s1 s' \<and> tg s' = tg s1 \<and>
            tree_inv (tr s') (tg s') ?a 0 (sint (idx * 2 + 1)) (sint (mid + 1)) ?R"
      using mb lt less.prems(6,7) fr tags0 s1(3)
      by (intro less.hyps len1 len(2)) (simp_all add: sm1 sk)
    then obtain s2 where s2: "priv_build (idx * 2 + 1) (mid + 1) rb vec s1 = Some s2"
        "frame (?i * 2 + 1) s1 s2" "tg s2 = tg s1"
        "tree_inv (tr s2) (tg s2) ?a 0 (?i * 2 + 1) (m + 1) ?R"
      by (auto simp: sm1 sk)
    have len2: "int (length (tree s2)) = n" "length (tags s2) = length (tree s2)" "guard s2 \<le> 1"
      using frame_lengths [OF s2(2)] len1 by simp_all
    have inv2l: "tree_inv (tr s2) (tg s2) ?a 0 (?i * 2) ?L m"
      by (rule tree_inv_frame [OF s1(4) s2(2) dis_l])
    obtain s3 where s3: "tree_set idx (tr s2 (?i * 2) + tr s2 (?i * 2 + 1)) s2 = Some s3"
        "same_shape s2 s3" "tr s3 = (tr s2)(?i := tr s2 (?i * 2) + tr s2 (?i * 2 + 1))"
        "tg s3 = tg s2"
      using tree_set_ok [of s2 idx] here len2 by auto
    have reads: "tree_get (idx * 2) s2 = Some (tr s2 (?i * 2))"
      "tree_get (idx * 2 + 1) s2 = Some (tr s2 (?i * 2 + 1))"
      using here kids len len2 sk by (simp_all add: tree_get_ok)
    have run: "priv_build idx lb rb vec s = Some s3"
      using s1(1) s2(1) s3(1) reads
      by (subst priv_build.simps, subst if_not_P [OF False])
         (simp add: mid_def [symmetric])
    have "frame ?i s2 s3"
      using s3 by (auto simp: frame_def desc_refl)
    with frame_left [OF s1(2)] frame_right [OF s2(2)] have fr3: "frame ?i s s3"
      by (blast intro: frame_trans)
    have "tg s2 ?i = 0"
      using tags0 [of ?i] here s1(3) s2(3) by simp
    then have "tree_inv (tr s3) (tg s3) ?a 0 ?i ?L ?R"
      unfolding s3 using inv2l s2(4) lt here
      by (intro tree_inv_pull) (auto simp: m_def)
    with run fr3 s1(3) s2(3) s3(4) show ?thesis by auto
  qed
qed

section \<open>What the calls keep\<close>

lemma sint_of_int_le:
  assumes "0 \<le> k"
  shows "sint (word_of_int k :: int32) \<le> k"
proof -
  have "signed_take_bit 31 k \<le> k"
    using assms by (simp add: signed_take_bit_int_less_eq_self_iff)
  then show ?thesis
    by (simp add: signed_of_int)
qed

lemma tree_set_shape: "tree_set i v s = Some s' \<Longrightarrow> same_shape s s'"
  by (auto simp: tree_set_def same_shape_def split: if_splits)

lemma tags_set_shape: "tags_set i v s = Some s' \<Longrightarrow> same_shape s s'"
  by (auto simp: tags_set_def same_shape_def split: if_splits)

lemma push_down_shape: "push_down idx lb rb mid s = Some s' \<Longrightarrow> same_shape s s'"
  unfolding push_down_def
  by (auto split: bind_splits if_splits dest!: tree_set_shape tags_set_shape
           simp: same_shape_def)

lemma priv_add_shape:
  assumes "priv_add v idx l r lb rb s = Some s'"
  shows "same_shape s s'"
proof (rule priv_add.raw_induct [OF _ assms, where P = "\<lambda>_ _ _ _ _ _ s s'. same_shape s s'"],
    goal_cases)
  case (1 f v idx l r lb rb s s')
  from "1"(2) show ?case
    by (auto split: bind_splits if_splits
             dest!: tree_set_shape tags_set_shape push_down_shape "1"(1)
             simp: same_shape_def Let_def)
qed

lemma priv_get_sum_shape:
  assumes "priv_get_sum idx l r lb rb s = Some (x, s')"
  shows "same_shape s s'"
proof -
  have "same_shape s (snd (x, s'))"
  proof (rule priv_get_sum.raw_induct
      [OF _ assms, where P = "\<lambda>_ _ _ _ _ s y. same_shape s (snd y)"], goal_cases)
    case (1 f idx l r lb rb s y)
    from "1"(2) show ?case
      by (auto split: bind_splits if_splits prod.splits
               dest!: push_down_shape "1"(1)
               simp: same_shape_def Let_def)
  qed
  then show ?thesis by simp
qed

lemma priv_build_shape:
  assumes "priv_build idx l r vec s = Some s'"
  shows "same_shape s s'"
proof (rule priv_build.raw_induct [OF _ assms, where P = "\<lambda>_ _ _ _ s s'. same_shape s s'"],
    goal_cases)
  case (1 f idx l r vec s s')
  from "1"(2) show ?case
    by (auto split: bind_splits if_splits
             dest!: tree_set_shape "1"(1)
             simp: same_shape_def Let_def)
qed

section \<open>The invariant holds in every reachable state of a tree that fits\<close>

lemma sized_same_shape: "same_shape s s' \<Longrightarrow> sized s' = sized s"
  by (simp add: sized_def same_shape_def)

lemma sint_space:
  fixes lb rb :: int32
  assumes "sint lb \<le> sint rb" "4 * (sint rb - sint lb + 1) < 2 ^ 31"
  shows "sint (4 * (rb - lb + 1)) = 4 * (sint rb - sint lb + 1)"
  by (rule sint_eqI) (use assms in simp_all)

lemma SegmentTree_range_bounds:
  "SegmentTree_range lb rb = Some s \<Longrightarrow> left_bound s = lb \<and> right_bound s = rb \<and> guard s = 0"
  by (auto simp: SegmentTree_range_def Let_def split: if_splits)

lemma SegmentTree_vec_bounds:
  assumes "SegmentTree_vec vec = Some s"
  shows "left_bound s = 0 \<and> right_bound s = word_of_nat (length vec) - 1 \<and> guard s = 0"
  using assms
  by (auto simp: SegmentTree_vec_def Let_def same_shape_def split: if_splits
           dest!: priv_build_shape)

lemma SegmentTree_range_good:
  assumes "sint lb \<le> sint rb" "4 * (sint rb - sint lb + 1) < 2 ^ 31"
  shows "\<exists>s. SegmentTree_range lb rb = Some s \<and> good s zeros"
proof -
  define n where "n = 4 * (sint rb - sint lb + 1)"
  define s where "s = \<lparr>left_bound = lb, right_bound = rb,
                       tree = replicate (nat n) 0, tags = replicate (nat n) 0, guard = 0\<rparr>"
  have n: "0 \<le> n" using assms by (simp add: n_def)
  have sp: "sint (4 * (rb - lb + 1)) = n"
    unfolding n_def using assms by (rule sint_space)
  have run: "SegmentTree_range lb rb = Some s"
    using n sp by (simp add: SegmentTree_range_def space_needed_def Let_def s_def)
  have len: "int (length (tree s)) = n" "length (tags s) = length (tree s)"
    using n by (simp_all add: s_def)
  have fit: "fits n 1 (sint lb) (sint rb)"
    unfolding n_def using assms(1) by (rule fits_root)
  have "tree_inv (tr s) (tg s) zeros 0 1 (sint lb) (sint rb)"
    using fit by (rule tree_inv_zeros) (simp add: tr_def tg_def s_def)
  then have "good s zeros"
    using assms fit len by (simp add: good_def sized_def s_def n_def)
  with run show ?thesis by blast
qed

lemma SegmentTree_vec_range:
  "SegmentTree_vec vec =
   SegmentTree_range 0 (word_of_nat (length vec) - 1) \<bind>
   priv_build 1 0 (word_of_nat (length vec) - 1) vec"
  by (simp add: SegmentTree_vec_def SegmentTree_range_def Let_def)

lemma priv_build_good:
  assumes "vec \<noteq> []"
    and "0 \<le> sint (word_of_nat (length vec) - 1 :: int32)"
    and "4 * (sint (word_of_nat (length vec) - 1 :: int32) + 1) < 2 ^ 31"
    and "g \<le> 1"
  shows "\<exists>s0 s. SegmentTree_range 0 (word_of_nat (length vec) - 1) = Some s0 \<and>
           priv_build 1 0 (word_of_nat (length vec) - 1) vec (s0\<lparr>guard := g\<rparr>) = Some s \<and>
           good s (of_vec vec)"
proof -
  define rb :: int32 where "rb = word_of_nat (length vec) - 1"
  define n where "n = 4 * (sint rb - sint (0 :: int32) + 1)"
  define s0 where "s0 = \<lparr>left_bound = 0, right_bound = rb,
                       tree = replicate (nat n) 0, tags = replicate (nat n) 0, guard = 0\<rparr>"
  define s where "s = s0\<lparr>guard := g\<rparr>"
  have rb: "0 \<le> sint rb" "4 * (sint rb + 1) < 2 ^ 31"
    using assms(2,3) by (simp_all add: rb_def)
  then have n: "0 \<le> n" "n \<le> 2 ^ 31" by (simp_all add: n_def)
  have eq: "rb = word_of_int (int (length vec) - 1)"
    by (simp add: rb_def)
  have "0 \<le> int (length vec) - 1"
    using assms(1) by (cases vec) simp_all
  then have "sint (word_of_int (int (length vec) - 1) :: int32) \<le> int (length vec) - 1"
    by (rule sint_of_int_le)
  then have inside: "sint rb < int (length vec)"
    unfolding eq by linarith
  have sp: "sint (4 * (rb - 0 + 1)) = n"
    unfolding n_def using rb by (intro sint_space) simp_all
  have run: "SegmentTree_range 0 rb = Some s0"
    using n sp by (simp add: SegmentTree_range_def space_needed_def Let_def s0_def)
  have len: "int (length (tree s)) = n" "length (tags s) = length (tree s)"
    using n by (simp_all add: s_def s0_def)
  have fit: "fits n 1 (sint (0 :: int32)) (sint rb)"
    unfolding n_def using rb by (intro fits_root) simp
  have "\<exists>s'. priv_build 1 0 rb vec s = Some s' \<and> frame (sint (1 :: int32)) s s' \<and>
          tg s' = tg s \<and> tree_inv (tr s') (tg s') (of_vec vec) 0 (sint (1 :: int32)) (sint (0 :: int32)) (sint rb)"
    using fit rb inside n len assms(4)
    by (intro priv_build_correct [where n = n]) (simp_all add: tg_def s_def s0_def)
  then obtain s' where s': "priv_build 1 0 rb vec s = Some s'" "frame 1 s s'"
      "tree_inv (tr s') (tg s') (of_vec vec) 0 1 0 (sint rb)"
    by auto
  have shape: "same_shape s s'"
    using s'(2) by (rule frame_same_shape)
  then have "good s' (of_vec vec)"
    using rb fit len s'(3) assms(4)
    by (simp add: good_def sized_def same_shape_def s_def s0_def n_def)
  with run s'(1) show ?thesis
    unfolding rb_def [symmetric] s_def by blast
qed

lemma SegmentTree_vec_good:
  assumes "vec \<noteq> []"
    and "0 \<le> sint (word_of_nat (length vec) - 1 :: int32)"
    and "4 * (sint (word_of_nat (length vec) - 1 :: int32) + 1) < 2 ^ 31"
  shows "\<exists>s. SegmentTree_vec vec = Some s \<and> good s (of_vec vec)"
proof -
  from priv_build_good [OF assms, of 0] obtain s0 s where
    s: "SegmentTree_range 0 (word_of_nat (length vec) - 1) = Some s0"
      "priv_build 1 0 (word_of_nat (length vec) - 1) vec (s0\<lparr>guard := 0\<rparr>) = Some s"
      "good s (of_vec vec)"
    by auto
  have "s0\<lparr>guard := 0\<rparr> = s0"
    using SegmentTree_range_bounds [OF s(1)] by simp
  with s show ?thesis
    by (simp add: SegmentTree_vec_range)
qed

lemma good_frame:
  assumes "good s a" "frame 1 s s'"
    and "tree_inv (tr s') (tg s') a' 0 1 (sint (left_bound s)) (sint (right_bound s))"
  shows "good s' a'"
  using assms by (simp add: good_def frame_def same_shape_def sized_def)

lemma good_facts:
  assumes "good s a"
  shows "fits (int (length (tree s))) 1 (sint (left_bound s)) (sint (right_bound s))"
    and "int (length (tree s)) \<le> 2 ^ 31"
    and "length (tags s) = length (tree s)"
    and "guard s \<le> 1"
    and "tree_inv (tr s) (tg s) a 0 1 (sint (left_bound s)) (sint (right_bound s))"
    and "sint (left_bound s) \<le> sint (right_bound s)"
    and "sint (right_bound s) - sint (left_bound s) < 2 ^ 31"
  using assms by (simp_all add: good_def sized_def)

lemma add_good:
  assumes "good s a" "valid s l r"
  shows "\<exists>s'. add v l r s = Some s' \<and> good s' (range_add v (sint l) (sint r) a) \<and>
              same_shape s s'"
proof -
  note g = good_facts [OF assms(1)]
  have "\<exists>s'. priv_add v 1 l r (left_bound s) (right_bound s) s = Some s' \<and>
      frame (sint (1 :: int32)) s s' \<and>
      tree_inv (tr s') (tg s') (range_add v (sint l) (sint r) a) 0 (sint (1 :: int32))
        (sint (left_bound s)) (sint (right_bound s))"
    using g assms(2)
    by (intro priv_add_correct [where n = "int (length (tree s))"])
       (simp_all add: valid_def word_sle_eq)
  then obtain s' where s': "priv_add v 1 l r (left_bound s) (right_bound s) s = Some s'"
      "frame 1 s s'"
      "tree_inv (tr s') (tg s') (range_add v (sint l) (sint r) a) 0 1
         (sint (left_bound s)) (sint (right_bound s))"
    by auto
  from s'(1) good_frame [OF assms(1) s'(2,3)] frame_same_shape [OF s'(2)]
  show ?thesis by (simp add: add_def)
qed

lemma get_sum_good:
  assumes "good s a" "valid s l r"
  shows "\<exists>s'. get_sum l r s = Some (range_sum a (sint l) (sint r), s') \<and> good s' a \<and>
              same_shape s s'"
proof -
  note g = good_facts [OF assms(1)]
  have mm: "max (sint l) (sint (left_bound s)) = sint l"
    "min (sint r) (sint (right_bound s)) = sint r"
    using assms(2) by (simp_all add: valid_def word_sle_eq)
  have "\<exists>s'. priv_get_sum 1 l r (left_bound s) (right_bound s) s =
        Some (range_sum a (max (sint l) (sint (left_bound s)))
                (min (sint r) (sint (right_bound s))), s') \<and>
      frame (sint (1 :: int32)) s s' \<and>
      tree_inv (tr s') (tg s') a 0 (sint (1 :: int32))
        (sint (left_bound s)) (sint (right_bound s))"
    using g assms(2)
    by (intro priv_get_sum_correct [where n = "int (length (tree s))"])
       (simp_all add: valid_def word_sle_eq)
  then obtain s' where s': "priv_get_sum 1 l r (left_bound s) (right_bound s) s =
        Some (range_sum a (sint l) (sint r), s')"
      "frame 1 s s'"
      "tree_inv (tr s') (tg s') a 0 1 (sint (left_bound s)) (sint (right_bound s))"
    unfolding mm by auto
  from s'(1) good_frame [OF assms(1) s'(2,3)] frame_same_shape [OF s'(2)]
  show ?thesis by (simp add: get_sum_def)
qed

lemma add_shape: "add v l r s = Some s' \<Longrightarrow> same_shape s s'"
  unfolding add_def by (rule priv_add_shape)

lemma get_sum_shape: "get_sum l r s = Some (x, s') \<Longrightarrow> same_shape s s'"
  unfolding get_sum_def by (rule priv_get_sum_shape)

lemma reach_good: "reach s a \<Longrightarrow> sized s \<Longrightarrow> good s a"
proof (induction rule: reach.induct)
  case (reach_range lb rb s)
  from SegmentTree_range_bounds [OF reach_range.hyps(2)] reach_range.prems
  have "sint lb \<le> sint rb" "4 * (sint rb - sint lb + 1) < 2 ^ 31"
    by (simp_all add: sized_def)
  from SegmentTree_range_good [OF this] reach_range.hyps(2) show ?case by simp
next
  case (reach_vec vec s)
  from SegmentTree_vec_bounds [OF reach_vec.hyps(2)] reach_vec.prems
  have "0 \<le> sint (word_of_nat (length vec) - 1 :: int32)"
    "4 * (sint (word_of_nat (length vec) - 1 :: int32) + 1) < 2 ^ 31"
    by (simp_all add: sized_def)
  from SegmentTree_vec_good [OF reach_vec.hyps(1) this] reach_vec.hyps(2) show ?case by simp
next
  case (reach_add s a l r v s')
  have "sized s"
    using add_shape [OF reach_add.hyps(3)] reach_add.prems by (simp add: sized_same_shape)
  then have "good s a" by (rule reach_add.IH)
  from add_good [OF this reach_add.hyps(2), of v] reach_add.hyps(3) show ?case by simp
next
  case (reach_get_sum s a l r x s')
  have "sized s"
    using get_sum_shape [OF reach_get_sum.hyps(3)] reach_get_sum.prems
    by (simp add: sized_same_shape)
  then have "good s a" by (rule reach_get_sum.IH)
  from get_sum_good [OF this reach_get_sum.hyps(2)] reach_get_sum.hyps(3) show ?case by simp
qed

lemma reachable_reach: "reachable s \<Longrightarrow> \<exists>a. reach s a"
  by (induction rule: reachable.induct) (blast intro: reach.intros)+

lemma reach_reachable: "reach s a \<Longrightarrow> reachable s"
  by (induction rule: reach.induct) (blast intro: reachable.intros)+

lemma reachable_good: "reachable s \<Longrightarrow> sized s \<Longrightarrow> \<exists>a. good s a"
  using reachable_reach reach_good by blast

lemma reachable_guard: "reachable s \<Longrightarrow> guard s = 0"
proof (induction rule: reachable.induct)
  case (reachable_range lb rb s)
  then show ?case using SegmentTree_range_bounds by blast
next
  case (reachable_vec vec s)
  then show ?case using SegmentTree_vec_bounds by blast
next
  case (reachable_add s l r v s')
  then show ?case using add_shape [of v l r s s'] by (simp add: same_shape_def)
next
  case (reachable_get_sum s l r x s')
  then show ?case using get_sum_shape [of l r s x s'] by (simp add: same_shape_def)
qed

lemma valid_same_shape: "same_shape s s' \<Longrightarrow> valid s' l r = valid s l r"
  by (simp add: valid_def same_shape_def)

lemma valid_op_same_shape: "same_shape s s' \<Longrightarrow> valid_op s' x = valid_op s x"
  by (cases x) (simp_all add: valid_same_shape)

lemma run_good:
  assumes "good s a" "\<forall>x \<in> set ops. valid_op s x"
  shows "\<exists>s'. run ops s = Some (sums ops a, s') \<and> good s' (final ops a) \<and> same_shape s s'"
  using assms
proof (induction ops arbitrary: s a)
  case Nil
  then show ?case by (simp add: same_shape_refl)
next
  case (Cons x ops)
  show ?case
  proof (cases x)
    case (Add v l r)
    with Cons.prems obtain s1 where s1: "add v l r s = Some s1"
        "good s1 (range_add v (sint l) (sint r) a)" "same_shape s s1"
      using add_good [of s a l r v] by auto
    have "\<forall>x \<in> set ops. valid_op s1 x"
      using Cons.prems(2) s1(3) by (simp add: valid_op_same_shape)
    from Cons.IH [OF s1(2) this] s1 Add show ?thesis
      by (auto intro: same_shape_trans)
  next
    case (GetSum l r)
    with Cons.prems obtain s1 where s1:
        "get_sum l r s = Some (range_sum a (sint l) (sint r), s1)" "good s1 a"
        "same_shape s s1"
      using get_sum_good [of s a l r] by auto
    have "\<forall>x \<in> set ops. valid_op s1 x"
      using Cons.prems(2) s1(3) by (simp add: valid_op_same_shape)
    from Cons.IH [OF s1(2) this] s1 GetSum show ?thesis
      by (auto intro: same_shape_trans)
  qed
qed

lemma results_good:
  assumes "good s a" "\<forall>x \<in> set ops. valid_op s x"
  shows "results ops s = Some (sums ops a)"
  using run_good [OF assms] by (auto simp: results_def)

section \<open>Point values of the input sequence, and the nodes of a tree that fits\<close>

lemma range_sum_of_vec: "range_sum (of_vec vec) 0 (int (length vec) - 1) = sum_list vec"
proof (induction vec rule: rev_induct)
  case Nil
  then show ?case by (simp add: range_sum_empty)
next
  case (snoc x xs)
  have "range_sum (of_vec (xs @ [x])) 0 (int (length xs)) =
        range_sum (of_vec (xs @ [x])) 0 (int (length xs) - 1) +
        range_sum (of_vec (xs @ [x])) (int (length xs) - 1 + 1) (int (length xs))"
    by (rule range_sum_split) simp_all
  moreover have "range_sum (of_vec (xs @ [x])) 0 (int (length xs) - 1) =
        range_sum (of_vec xs) 0 (int (length xs) - 1)"
    by (rule range_sum_cong) (auto simp: of_vec_def nth_append)
  moreover have "range_sum (of_vec (xs @ [x])) (int (length xs)) (int (length xs)) = x"
    by (simp add: range_sum_single of_vec_def)
  ultimately show ?case
    using snoc.IH by simp
qed

lemma sint_last_index:
  assumes "vec \<noteq> []" "4 * int (length vec) < 2 ^ 31"
  shows "sint (word_of_nat (length vec) - 1 :: int32) = int (length vec) - 1"
proof (rule sint_eqI)
  show "(word_of_nat (length vec) - 1 :: int32) = word_of_int (int (length vec) - 1)"
    by simp
  show "- (2 ^ 31) \<le> int (length vec) - 1" by simp
  show "int (length vec) - 1 < 2 ^ 31" using assms(2) by simp
qed

lemma node_good:
  assumes "good s a" "node s idx lb rb acc"
  shows "sint (left_bound s) \<le> sint lb \<and> sint lb \<le> sint rb \<and> sint rb \<le> sint (right_bound s) \<and>
         fits (4 * (sint (right_bound s) - sint (left_bound s) + 1)) (sint idx) (sint lb) (sint rb) \<and>
         tree_inv (tr s) (tg s) a acc (sint idx) (sint lb) (sint rb)"
  using assms(2,1)
proof (induction rule: node.induct)
  case (node_root s)
  then show ?case by (simp add: good_def sized_def)
next
  case (node_left s idx lb rb acc)
  let ?n = "4 * (sint (right_bound s) - sint (left_bound s) + 1)"
  from node_left.IH [OF node_left.prems]
  have b: "sint (left_bound s) \<le> sint lb" "sint lb \<le> sint rb" "sint rb \<le> sint (right_bound s)"
    and fit: "fits ?n (sint idx) (sint lb) (sint rb)"
    and inv: "tree_inv (tr s) (tg s) a acc (sint idx) (sint lb) (sint rb)"
    by simp_all
  have n: "?n < 2 ^ 31"
    using node_left.prems by (simp add: good_def sized_def)
  have lt: "sint lb < sint rb"
    using node_left.hyps(2) by (simp add: word_sless_alt)
  have mid: "sint (lb + int_div (rb - lb) 2) = midpoint (sint lb) (sint rb)"
    using b n by (intro sint_mid) simp_all
  have "sint idx * 2 + 1 < ?n"
    using fits_here [OF fits_right [OF fit lt]] by simp
  then have kid: "sint (idx * 2) = sint idx * 2"
    using fits_here [OF fit] n by (intro sint_children) simp_all
  have "tg s (sint idx) = tags s ! nat (sint idx)"
    by (simp add: tg_def)
  with fits_left [OF fit lt] tree_inv_left [OF inv lt] midpoint_bounds [OF lt] b
  show ?case
    by (simp add: mid kid)
next
  case (node_right s idx lb rb acc)
  let ?n = "4 * (sint (right_bound s) - sint (left_bound s) + 1)"
  from node_right.IH [OF node_right.prems]
  have b: "sint (left_bound s) \<le> sint lb" "sint lb \<le> sint rb" "sint rb \<le> sint (right_bound s)"
    and fit: "fits ?n (sint idx) (sint lb) (sint rb)"
    and inv: "tree_inv (tr s) (tg s) a acc (sint idx) (sint lb) (sint rb)"
    by simp_all
  have n: "?n < 2 ^ 31"
    using node_right.prems by (simp add: good_def sized_def)
  have lt: "sint lb < sint rb"
    using node_right.hyps(2) by (simp add: word_sless_alt)
  have mid: "sint (lb + int_div (rb - lb) 2) = midpoint (sint lb) (sint rb)"
    using b n by (intro sint_mid) simp_all
  have "sint (lb + int_div (rb - lb) 2) < sint rb"
    using midpoint_bounds [OF lt] by (simp add: mid)
  then have mid1: "sint (lb + int_div (rb - lb) 2 + 1) = midpoint (sint lb) (sint rb) + 1"
    using sint_succ [of "lb + int_div (rb - lb) 2" rb] by (simp add: mid)
  have "sint idx * 2 + 1 < ?n"
    using fits_here [OF fits_right [OF fit lt]] by simp
  then have kid: "sint (idx * 2 + 1) = sint idx * 2 + 1"
    using fits_here [OF fit] n by (intro sint_children) simp_all
  have "tg s (sint idx) = tags s ! nat (sint idx)"
    by (simp add: tg_def)
  with fits_right [OF fit lt] tree_inv_right [OF inv lt] midpoint_bounds [OF lt] b
  show ?case
    by (simp add: mid1 kid)
qed

lemma range_add_commute:
  "range_add x2 c d (range_add x1 a b f) = range_add x1 a b (range_add x2 c d f)"
  by (auto simp: range_add_def fun_eq_iff)

lemma range_add_inverse: "range_add (- x) l r (range_add x l r f) = f"
  by (auto simp: range_add_def fun_eq_iff)

lemma good_guard: "good s a \<Longrightarrow> g \<le> 1 \<Longrightarrow> good (s\<lparr>guard := g\<rparr>) a"
proof -
  assume g: "good s a" "g \<le> 1"
  have "tr (s\<lparr>guard := g\<rparr>) = tr s" "tg (s\<lparr>guard := g\<rparr>) = tg s"
    by (simp_all add: fun_eq_iff tr_def tg_def)
  with g show ?thesis
    by (simp add: good_def sized_def)
qed

section \<open>The tags of the leaves\<close>

lemma leaf_slot_desc: "leaf_slot idx lb rb k \<Longrightarrow> desc idx k"
proof (induction idx lb rb k rule: leaf_slot.induct)
  case (1 idx lb rb k)
  show ?case
  proof (cases "lb < rb")
    case True
    with "1.prems" have "leaf_slot (idx * 2) lb (midpoint lb rb) k \<or>
        leaf_slot (idx * 2 + 1) (midpoint lb rb + 1) rb k"
      by (subst (asm) leaf_slot.simps) simp
    with True "1.IH" show ?thesis
      by (blast intro: desc_via_left desc_via_right)
  next
    case False
    with "1.prems" have "k = idx"
      by (subst (asm) leaf_slot.simps) simp
    then show ?thesis by (simp add: desc_refl)
  qed
qed

lemma tree_inv_leaf_tag:
  assumes "tree_inv T G a acc idx lb rb" "leaf_slot idx lb rb k \<or> \<not> desc idx k" "1 \<le> idx"
  shows "tree_inv T (G(k := t)) a acc idx lb rb"
  using assms
proof (induction T G a acc idx lb rb rule: tree_inv.induct)
  case (1 T G a acc idx lb rb)
  note inv = "1.prems"(1)
  show ?case
  proof (cases "lb < rb")
    case False
    with tree_inv_top [OF inv] show ?thesis
      by (subst tree_inv.simps) simp
  next
    case True
    have split: "leaf_slot idx lb rb k \<longleftrightarrow>
        leaf_slot (idx * 2) lb (midpoint lb rb) k \<or>
        leaf_slot (idx * 2 + 1) (midpoint lb rb + 1) rb k"
      using True by (subst leaf_slot.simps) simp
    have ne: "k \<noteq> idx"
    proof
      assume "k = idx"
      with "1.prems"(2) split have "desc (idx * 2) idx \<or> desc (idx * 2 + 1) idx"
        by (auto dest: leaf_slot_desc simp: desc_refl)
      with "1.prems"(3) show False
        using not_desc_left_self [of idx] not_desc_right_self [of idx] by blast
    qed
    have kl: "leaf_slot (idx * 2) lb (midpoint lb rb) k \<or> \<not> desc (idx * 2) k"
      using "1.prems"(2,3) split desc_disjoint [of idx k]
      by (auto dest: leaf_slot_desc desc_via_left)
    have kr: "leaf_slot (idx * 2 + 1) (midpoint lb rb + 1) rb k \<or> \<not> desc (idx * 2 + 1) k"
      using "1.prems"(2,3) split desc_disjoint [of idx k]
      by (auto dest: leaf_slot_desc desc_via_right)
    have kids: "1 \<le> idx * 2" "1 \<le> idx * 2 + 1"
      using "1.prems"(3) by simp_all
    have l: "tree_inv T (G(k := t)) a (acc + G idx) (idx * 2) lb (midpoint lb rb)"
      by (rule "1.IH"(1) [OF True tree_inv_left [OF inv True] kl kids(1)])
    have r: "tree_inv T (G(k := t)) a (acc + G idx) (idx * 2 + 1) (midpoint lb rb + 1) rb"
      by (rule "1.IH"(2) [OF True tree_inv_right [OF inv True] kr kids(2)])
    have here: "(G(k := t)) idx = G idx"
      using ne by simp
    from tree_inv_top [OF inv] l r show ?thesis
      unfolding here [symmetric] by (rule tree_inv_node)
  qed
qed

lemma node_leaf_slot:
  assumes "good s a" "node s idx lb rb acc" "leaf_slot (sint idx) (sint lb) (sint rb) k"
  shows "leaf_slot 1 (sint (left_bound s)) (sint (right_bound s)) k"
  using assms(2,1,3)
proof (induction rule: node.induct)
  case (node_root s)
  then show ?case by simp
next
  case (node_left s idx lb rb acc)
  have lt: "sint lb < sint rb"
    using node_left.hyps(2) by (simp add: word_sless_alt)
  from node_good [OF node_left.prems(1) node.node_left [OF node_left.hyps(1,2)]]
    node_good [OF node_left.prems(1) node_left.hyps(1)] lt
  have "fits (4 * (sint (right_bound s) - sint (left_bound s) + 1))
          (sint (idx * 2)) (sint lb) (sint (lb + int_div (rb - lb) 2))"
    and fit: "fits (4 * (sint (right_bound s) - sint (left_bound s) + 1)) (sint idx) (sint lb) (sint rb)"
    by simp_all
  have n: "4 * (sint (right_bound s) - sint (left_bound s) + 1) < 2 ^ 31"
    using node_left.prems(1) by (simp add: good_def sized_def)
  have b: "sint lb \<le> sint rb" "sint rb - sint lb < 2 ^ 31"
    using node_good [OF node_left.prems(1) node_left.hyps(1)] n by simp_all
  have mid: "sint (lb + int_div (rb - lb) 2) = midpoint (sint lb) (sint rb)"
    using b by (rule sint_mid)
  have "sint idx * 2 + 1 < 4 * (sint (right_bound s) - sint (left_bound s) + 1)"
    using fits_here [OF fits_right [OF fit lt]] by simp
  then have kid: "sint (idx * 2) = sint idx * 2"
    using fits_here [OF fit] n by (intro sint_children) simp_all
  have "leaf_slot (sint idx) (sint lb) (sint rb) k"
    using lt node_left.prems(2)
    by (subst leaf_slot.simps) (simp add: mid kid)
  then show ?case by (rule node_left.IH [OF node_left.prems(1)])
next
  case (node_right s idx lb rb acc)
  have lt: "sint lb < sint rb"
    using node_right.hyps(2) by (simp add: word_sless_alt)
  have fit: "fits (4 * (sint (right_bound s) - sint (left_bound s) + 1)) (sint idx) (sint lb) (sint rb)"
    using node_good [OF node_right.prems(1) node_right.hyps(1)] by simp
  have n: "4 * (sint (right_bound s) - sint (left_bound s) + 1) < 2 ^ 31"
    using node_right.prems(1) by (simp add: good_def sized_def)
  have b: "sint lb \<le> sint rb" "sint rb - sint lb < 2 ^ 31"
    using node_good [OF node_right.prems(1) node_right.hyps(1)] n by simp_all
  have mid: "sint (lb + int_div (rb - lb) 2) = midpoint (sint lb) (sint rb)"
    using b by (rule sint_mid)
  have "sint (lb + int_div (rb - lb) 2) < sint rb"
    using midpoint_bounds [OF lt] by (simp add: mid)
  then have mid1: "sint (lb + int_div (rb - lb) 2 + 1) = midpoint (sint lb) (sint rb) + 1"
    using sint_succ [of "lb + int_div (rb - lb) 2" rb] by (simp add: mid)
  have "sint idx * 2 + 1 < 4 * (sint (right_bound s) - sint (left_bound s) + 1)"
    using fits_here [OF fits_right [OF fit lt]] by simp
  then have kid: "sint (idx * 2 + 1) = sint idx * 2 + 1"
    using fits_here [OF fit] n by (intro sint_children) simp_all
  have "leaf_slot (sint idx) (sint lb) (sint rb) k"
    using lt node_right.prems(2)
    by (subst leaf_slot.simps) (simp add: mid1 kid)
  then show ?case by (rule node_right.IH [OF node_right.prems(1)])
qed

lemma good_leaf_tag:
  assumes "good s a" "node s idx lb lb acc"
  shows "good (s\<lparr>tags := (tags s)[nat (sint idx) := t]\<rparr>) a"
proof -
  let ?s = "s\<lparr>tags := (tags s)[nat (sint idx) := t]\<rparr>"
  have "leaf_slot (sint idx) (sint lb) (sint lb) (sint idx)"
    by (subst leaf_slot.simps) simp
  then have leaf: "leaf_slot 1 (sint (left_bound s)) (sint (right_bound s)) (sint idx)"
    by (rule node_leaf_slot [OF assms])
  have "fits (4 * (sint (right_bound s) - sint (left_bound s) + 1)) (sint idx) (sint lb) (sint lb)"
    using node_good [OF assms] by simp
  then have idx: "1 \<le> sint idx" "sint idx < int (length (tags s))"
    using fits_here [of _ "sint idx" "sint lb" "sint lb"] assms(1) by (simp_all add: good_def)
  then have tg: "tg ?s = (tg s)(sint idx := t)"
    by (auto simp: tg_def fun_eq_iff nth_list_update)
  have tr: "tr ?s = tr s"
    by (simp add: tr_def fun_eq_iff)
  have "tree_inv (tr s) ((tg s)(sint idx := t)) a 0 1 (sint (left_bound s)) (sint (right_bound s))"
    using assms(1) leaf by (intro tree_inv_leaf_tag) (simp_all add: good_def)
  then show ?thesis
    using assms(1) by (simp add: good_def sized_def tg tr)
qed

section \<open>Runs on the example trees\<close>

lemma example_built_run: "SegmentTree_vec [3, 1, 4, 1] = Some example_built"
  by code_simp

lemma example_tree_run: "add 2 0 1 example_built = Some example_tree"
  by code_simp

lemma example_tree_reach: "reach example_tree example_values"
  using reach_add [OF reach_vec [OF _ example_built_run] _ example_tree_run]
  by (simp add: valid_def example_built_def word_sle_eq example_values_def)

lemma example_tree_reachable: "reachable example_tree"
  using example_tree_reach by (rule reach_reachable)

lemma example_tree_bounds: "left_bound example_tree = 0" "right_bound example_tree = 3"
  by (simp_all add: example_tree_def)

lemma example_tree_sized: "sized example_tree"
  by (simp add: sized_def example_tree_def)

lemma example_tree_node: "node example_tree 5 1 1 2"
  using node_right [OF node_left [OF node_root [of example_tree]]]
  by (simp add: example_tree_def int_div_def word_sless_alt signed_divide_int_def)

lemma wrapped_tree_run: "SegmentTree_range 0 1073741823 = Some wrapped_tree"
  by (simp add: SegmentTree_range_def space_needed_def wrapped_tree_def)

lemma wrapped_tree_reachable: "reachable wrapped_tree"
  by (rule reachable_range [OF _ wrapped_tree_run]) (simp add: word_sle_eq)

lemma wrapped_tree_valid: "valid wrapped_tree 0 0" "valid wrapped_tree 0 1" "valid wrapped_tree 3 3"
  by (simp_all add: valid_def wrapped_tree_def word_sle_eq)

lemma wrapped_tree_get_sum: "get_sum 0 0 wrapped_tree = None" "get_sum 0 1 wrapped_tree = None"
  by code_simp+

lemma wrapped_tree_add: "add 1 0 0 wrapped_tree = None" "add 5 3 3 wrapped_tree = None"
  "add 2 0 1 wrapped_tree = None"
  by code_simp+

lemma max_tree_run: "SegmentTree_vec [2147483647] = Some max_tree"
  by code_simp

lemma max_tree_reach: "reach max_tree (of_vec [2147483647])"
  by (rule reach_vec [OF _ max_tree_run]) simp

lemma over_tree_run: "add 1 0 0 max_tree = Some over_tree"
  by code_simp

lemma over_tree_reach: "reach over_tree (range_add 1 0 0 (of_vec [2147483647]))"
  using reach_add [OF max_tree_reach _ over_tree_run]
  by (simp add: valid_def max_tree_def)

lemma pair_tree_run: "SegmentTree_vec [2147483647, 1] = Some pair_tree"
  by code_simp

text \<open>The tree over \<open>[0, 1]\<close> after \<open>add 5 0 1\<close>, and the tree over \<open>[0, 0]\<close> after
  \<open>add 5 0 0\<close>.\<close>

lemma tree_0_1_after_add:
  "add 5 0 1 \<lparr>left_bound = 0, right_bound = 1, tree = replicate 8 0, tags = replicate 8 0,
              guard = 0\<rparr> =
   Some \<lparr>left_bound = 0, right_bound = 1,
         tree = [0, 10, 0, 0, 0, 0, 0, 0], tags = [0, 5, 0, 0, 0, 0, 0, 0], guard = 0\<rparr>"
  by code_simp

lemma tree_0_1_reach:
  "reach \<lparr>left_bound = 0, right_bound = 1,
          tree = [0, 10, 0, 0, 0, 0, 0, 0], tags = [0, 5, 0, 0, 0, 0, 0, 0], guard = 0\<rparr>
     (range_add 5 0 1 zeros)"
proof -
  have "reach \<lparr>left_bound = 0, right_bound = 1, tree = replicate 8 0, tags = replicate 8 0,
               guard = 0\<rparr> zeros"
    by (rule reach_range [of 0 1])
       (simp_all add: SegmentTree_range_def space_needed_def word_sle_eq)
  from reach_add [OF this _ tree_0_1_after_add] show ?thesis
    by (simp add: valid_def word_sle_eq)
qed

lemma tree_0_1_node:
  "node \<lparr>left_bound = 0, right_bound = 1,
         tree = [0, 10, 0, 0, 0, 0, 0, 0], tags = [0, 5, 0, 0, 0, 0, 0, 0], guard = 0\<rparr> 2 0 0 5"
  using node_left [OF node_root, of "\<lparr>left_bound = 0, right_bound = 1,
         tree = [0, 10, 0, 0, 0, 0, 0, 0], tags = [0, 5, 0, 0, 0, 0, 0, 0], guard = 0\<rparr>"]
  by (simp add: int_div_def word_sless_alt signed_divide_int_def)

lemma tree_0_0_after_add:
  "add 5 0 0 \<lparr>left_bound = 0, right_bound = 0, tree = replicate 4 0, tags = replicate 4 0,
              guard = 0\<rparr> =
   Some \<lparr>left_bound = 0, right_bound = 0, tree = [0, 5, 0, 0], tags = [0, 5, 0, 0], guard = 0\<rparr>"
  by code_simp

lemma tree_0_0_reachable:
  "reachable \<lparr>left_bound = 0, right_bound = 0, tree = [0, 5, 0, 0], tags = [0, 5, 0, 0],
              guard = 0\<rparr>"
proof -
  have "reachable \<lparr>left_bound = 0, right_bound = 0, tree = replicate 4 0, tags = replicate 4 0,
                   guard = 0\<rparr>"
    by (rule reachable_range [of 0 0]) (simp_all add: SegmentTree_range_def space_needed_def)
  then show ?thesis
    by (rule reachable_add [OF _ _ tree_0_0_after_add]) (simp add: valid_def)
qed

lemma tree_0_0_node:
  "node \<lparr>left_bound = 0, right_bound = 0, tree = [0, 5, 0, 0], tags = [0, 5, 0, 0], guard = 0\<rparr>
     1 0 0 0"
  using node_root [of "\<lparr>left_bound = 0, right_bound = 0, tree = [0, 5, 0, 0],
                        tags = [0, 5, 0, 0], guard = 0\<rparr>"]
  by simp

section \<open>A run that never uses slot 0\<close>

lemma tree_get_guard:
  "tree_get i (s\<lparr>guard := 1\<rparr>) = Some x \<Longrightarrow> guard s \<le> 1 \<Longrightarrow> tree_get i s = Some x"
  by (auto simp: tree_get_def split: if_splits)

lemma tags_get_guard:
  "tags_get i (s\<lparr>guard := 1\<rparr>) = Some x \<Longrightarrow> guard s \<le> 1 \<Longrightarrow> tags_get i s = Some x"
  by (auto simp: tags_get_def split: if_splits)

lemma tree_set_guard:
  "tree_set i v (s\<lparr>guard := 1\<rparr>) = Some t \<Longrightarrow> guard s \<le> 1 \<Longrightarrow>
   \<exists>s'. tree_set i v s = Some s' \<and> t = s'\<lparr>guard := 1\<rparr> \<and> guard s' \<le> 1"
  by (auto simp: tree_set_def split: if_splits)

lemma tags_set_guard:
  "tags_set i v (s\<lparr>guard := 1\<rparr>) = Some t \<Longrightarrow> guard s \<le> 1 \<Longrightarrow>
   \<exists>s'. tags_set i v s = Some s' \<and> t = s'\<lparr>guard := 1\<rparr> \<and> guard s' \<le> 1"
  by (auto simp: tags_set_def split: if_splits)

lemma push_down_guard:
  assumes "push_down idx lb rb mid (s\<lparr>guard := 1\<rparr>) = Some t" "guard s \<le> 1"
  shows "\<exists>s'. push_down idx lb rb mid s = Some s' \<and> t = s'\<lparr>guard := 1\<rparr> \<and> guard s' \<le> 1"
  using assms unfolding push_down_def
  by (fastforce split: bind_splits if_splits
        dest!: tree_get_guard tags_get_guard tree_set_guard tags_set_guard)


lemma priv_add_guard_aux:
  assumes "priv_add v idx l r lb rb s1 = Some t"
  shows "\<forall>s. s1 = s\<lparr>guard := 1\<rparr> \<and> guard s \<le> 1 \<longrightarrow>
           (\<exists>s'. priv_add v idx l r lb rb s = Some s' \<and> t = s'\<lparr>guard := 1\<rparr> \<and> guard s' \<le> 1)"
proof (rule priv_add.raw_induct [OF _ assms, where P = "\<lambda>v idx l r lb rb s1 t.
    \<forall>s. s1 = s\<lparr>guard := 1\<rparr> \<and> guard s \<le> 1 \<longrightarrow>
      (\<exists>s'. priv_add v idx l r lb rb s = Some s' \<and> t = s'\<lparr>guard := 1\<rparr> \<and> guard s' \<le> 1)"],
    goal_cases)
  case (1 f v idx l r lb rb s1 t)
  note IH = "1"(1) [rule_format, OF _ conjI, OF _ refl]
  show ?case
  proof (intro allI impI, elim conjE)
    fix s
    assume s: "s1 = s\<lparr>guard := 1\<rparr>" "guard s \<le> 1"
    show "\<exists>s'. priv_add v idx l r lb rb s = Some s' \<and> t = s'\<lparr>guard := 1\<rparr> \<and> guard s' \<le> 1"
    proof (cases "l \<le>s lb \<and> rb \<le>s r")
      case True
      with "1"(2) s show ?thesis
        by (subst priv_add.simps)
           (fastforce split: bind_splits
              dest!: tree_get_guard tags_get_guard tree_set_guard tags_set_guard)
    next
      case False
      define mid where "mid = lb + int_div (rb - lb) 2"
      from "1"(2) False obtain a1 a2 a3 x y where
        a1: "push_down idx lb rb mid (s\<lparr>guard := 1\<rparr>) = Some a1"
        and a2: "(if l \<le>s mid then f v (idx * 2) l r lb mid a1 else Some a1) = Some a2"
        and a3: "(if mid + 1 \<le>s r then f v (idx * 2 + 1) l r (mid + 1) rb a2 else Some a2) = Some a3"
        and x: "tree_get (idx * 2) a3 = Some x"
        and y: "tree_get (idx * 2 + 1) a3 = Some y"
        and t: "tree_set idx (x + y) a3 = Some t"
        unfolding s mid_def by (auto simp: Let_def split: bind_splits)
      from push_down_guard [OF a1 s(2)] obtain b1 where
        b1: "push_down idx lb rb mid s = Some b1" "a1 = b1\<lparr>guard := 1\<rparr>" "guard b1 \<le> 1"
        by blast
      have "\<exists>b2. (if l \<le>s mid then priv_add v (idx * 2) l r lb mid b1 else Some b1) = Some b2 \<and>
              a2 = b2\<lparr>guard := 1\<rparr> \<and> guard b2 \<le> 1"
      proof (cases "l \<le>s mid")
        case True
        with a2 have "f v (idx * 2) l r lb mid (b1\<lparr>guard := 1\<rparr>) = Some a2"
          by (simp add: b1(2))
        from IH [OF this b1(3)] True show ?thesis by simp
      next
        case False
        with a2 b1 show ?thesis by simp
      qed
      then obtain b2 where
        b2: "(if l \<le>s mid then priv_add v (idx * 2) l r lb mid b1 else Some b1) = Some b2"
          "a2 = b2\<lparr>guard := 1\<rparr>" "guard b2 \<le> 1"
        by blast
      have "\<exists>b3. (if mid + 1 \<le>s r then priv_add v (idx * 2 + 1) l r (mid + 1) rb b2 else Some b2) = Some b3 \<and>
              a3 = b3\<lparr>guard := 1\<rparr> \<and> guard b3 \<le> 1"
      proof (cases "mid + 1 \<le>s r")
        case True
        with a3 have "f v (idx * 2 + 1) l r (mid + 1) rb (b2\<lparr>guard := 1\<rparr>) = Some a3"
          by (simp add: b2(2))
        from IH [OF this b2(3)] True show ?thesis by simp
      next
        case False
        with a3 b2 show ?thesis by simp
      qed
      then obtain b3 where
        b3: "(if mid + 1 \<le>s r then priv_add v (idx * 2 + 1) l r (mid + 1) rb b2 else Some b2) = Some b3"
          "a3 = b3\<lparr>guard := 1\<rparr>" "guard b3 \<le> 1"
        by blast
      have x': "tree_get (idx * 2) b3 = Some x" and y': "tree_get (idx * 2 + 1) b3 = Some y"
        using x y b3(2,3) by (auto dest: tree_get_guard)
      from t b3(2,3) obtain s' where
        s': "tree_set idx (x + y) b3 = Some s'" "t = s'\<lparr>guard := 1\<rparr>" "guard s' \<le> 1"
        by (auto dest: tree_set_guard)
      have "priv_add v idx l r lb rb s = Some s'"
        by (subst priv_add.simps, subst if_not_P [OF False])
           (simp add: Let_def mid_def [symmetric] b1(1) b2(1) b3(1) x' y' s'(1))
      with s'(2,3) show ?thesis by blast
    qed
  qed
qed


lemma priv_get_sum_guard_aux:
  assumes "priv_get_sum idx l r lb rb s1 = Some y"
  shows "\<forall>s. s1 = s\<lparr>guard := 1\<rparr> \<and> guard s \<le> 1 \<longrightarrow>
           (\<exists>s'. priv_get_sum idx l r lb rb s = Some (fst y, s') \<and>
                 snd y = s'\<lparr>guard := 1\<rparr> \<and> guard s' \<le> 1)"
proof (rule priv_get_sum.raw_induct [OF _ assms, where P = "\<lambda>idx l r lb rb s1 y.
    \<forall>s. s1 = s\<lparr>guard := 1\<rparr> \<and> guard s \<le> 1 \<longrightarrow>
      (\<exists>s'. priv_get_sum idx l r lb rb s = Some (fst y, s') \<and>
            snd y = s'\<lparr>guard := 1\<rparr> \<and> guard s' \<le> 1)"],
    goal_cases)
  case (1 f idx l r lb rb s1 y)
  note IH = "1"(1) [rule_format, OF _ conjI, OF _ refl]
  show ?case
  proof (intro allI impI, elim conjE)
    fix s
    assume s: "s1 = s\<lparr>guard := 1\<rparr>" "guard s \<le> 1"
    show "\<exists>s'. priv_get_sum idx l r lb rb s = Some (fst y, s') \<and>
               snd y = s'\<lparr>guard := 1\<rparr> \<and> guard s' \<le> 1"
    proof (cases "l \<le>s lb \<and> rb \<le>s r")
      case True
      with "1"(2) s show ?thesis
        by (subst priv_get_sum.simps)
           (fastforce split: bind_splits dest!: tree_get_guard)
    next
      case False
      define mid where "mid = lb + int_div (rb - lb) 2"
      from "1"(2) False have "\<exists>a1 p2 p3.
          push_down idx lb rb mid (s\<lparr>guard := 1\<rparr>) = Some a1 \<and>
          (if l \<le>s mid
           then f (idx * 2) l r lb mid a1 \<bind> (\<lambda>(x, s). Some (0 + x, s))
           else Some (0, a1)) = Some p2 \<and>
          (if mid + 1 \<le>s r
           then f (idx * 2 + 1) l r (mid + 1) rb (snd p2) \<bind> (\<lambda>(x, s). Some (fst p2 + x, s))
           else Some (fst p2, snd p2)) = Some p3 \<and>
          y = p3"
        unfolding s mid_def
        by (cases y)
           (simp add: Let_def bind_eq_Some_conv case_prod_beta split del: if_split cong: if_cong)
      then obtain a1 p2 p3 where
        a1: "push_down idx lb rb mid (s\<lparr>guard := 1\<rparr>) = Some a1"
        and p2: "(if l \<le>s mid
                  then f (idx * 2) l r lb mid a1 \<bind> (\<lambda>(x, s). Some (0 + x, s))
                  else Some (0, a1)) = Some p2"
        and p3: "(if mid + 1 \<le>s r
                  then f (idx * 2 + 1) l r (mid + 1) rb (snd p2) \<bind> (\<lambda>(x, s). Some (fst p2 + x, s))
                  else Some (fst p2, snd p2)) = Some p3"
        and y: "y = p3"
        by blast
      from push_down_guard [OF a1 s(2)] obtain b1 where
        b1: "push_down idx lb rb mid s = Some b1" "a1 = b1\<lparr>guard := 1\<rparr>" "guard b1 \<le> 1"
        by blast
      have "\<exists>b2. (if l \<le>s mid
                  then priv_get_sum (idx * 2) l r lb mid b1 \<bind> (\<lambda>(x, s). Some (0 + x, s))
                  else Some (0, b1)) = Some (fst p2, b2) \<and>
              snd p2 = b2\<lparr>guard := 1\<rparr> \<and> guard b2 \<le> 1"
      proof (cases "l \<le>s mid")
        case True
        with p2 obtain q where q: "f (idx * 2) l r lb mid (b1\<lparr>guard := 1\<rparr>) = Some q"
            "p2 = (0 + fst q, snd q)"
          by (auto simp: b1(2) split: bind_splits prod.splits)
        from IH [OF q(1) b1(3)] True q(2) show ?thesis by auto
      next
        case False
        with p2 b1 show ?thesis by auto
      qed
      then obtain b2 where
        b2: "(if l \<le>s mid
              then priv_get_sum (idx * 2) l r lb mid b1 \<bind> (\<lambda>(x, s). Some (0 + x, s))
              else Some (0, b1)) = Some (fst p2, b2)"
          "snd p2 = b2\<lparr>guard := 1\<rparr>" "guard b2 \<le> 1"
        by blast
      have "\<exists>b3. (if mid + 1 \<le>s r
                  then priv_get_sum (idx * 2 + 1) l r (mid + 1) rb b2 \<bind> (\<lambda>(x, s). Some (fst p2 + x, s))
                  else Some (fst p2, b2)) = Some (fst p3, b3) \<and>
              snd p3 = b3\<lparr>guard := 1\<rparr> \<and> guard b3 \<le> 1"
      proof (cases "mid + 1 \<le>s r")
        case True
        with p3 obtain q where q: "f (idx * 2 + 1) l r (mid + 1) rb (b2\<lparr>guard := 1\<rparr>) = Some q"
            "p3 = (fst p2 + fst q, snd q)"
          by (auto simp: b2(2) split: bind_splits prod.splits)
        from IH [OF q(1) b2(3)] True q(2) show ?thesis by auto
      next
        case False
        with p3 b2 show ?thesis by auto
      qed
      then obtain b3 where
        b3: "(if mid + 1 \<le>s r
              then priv_get_sum (idx * 2 + 1) l r (mid + 1) rb b2 \<bind> (\<lambda>(x, s). Some (fst p2 + x, s))
              else Some (fst p2, b2)) = Some (fst p3, b3)"
          "snd p3 = b3\<lparr>guard := 1\<rparr>" "guard b3 \<le> 1"
        by blast
      have "priv_get_sum idx l r lb rb s = Some (fst p3, b3)"
        by (subst priv_get_sum.simps, subst if_not_P [OF False])
           (simp add: Let_def mid_def [symmetric] b1(1) b2(1) b3(1))
      with b3(2,3) y show ?thesis by blast
    qed
  qed
qed

lemma priv_build_guard_aux:
  assumes "priv_build idx l r vec s1 = Some t"
  shows "\<forall>s. s1 = s\<lparr>guard := 1\<rparr> \<and> guard s \<le> 1 \<longrightarrow>
           (\<exists>s'. priv_build idx l r vec s = Some s' \<and> t = s'\<lparr>guard := 1\<rparr> \<and> guard s' \<le> 1)"
proof (rule priv_build.raw_induct [OF _ assms, where P = "\<lambda>idx l r vec s1 t.
    \<forall>s. s1 = s\<lparr>guard := 1\<rparr> \<and> guard s \<le> 1 \<longrightarrow>
      (\<exists>s'. priv_build idx l r vec s = Some s' \<and> t = s'\<lparr>guard := 1\<rparr> \<and> guard s' \<le> 1)"],
    goal_cases)
  case (1 f idx l r vec s1 t)
  note IH = "1"(1) [rule_format, OF _ conjI, OF _ refl]
  show ?case
  proof (intro allI impI, elim conjE)
    fix s
    assume s: "s1 = s\<lparr>guard := 1\<rparr>" "guard s \<le> 1"
    show "\<exists>s'. priv_build idx l r vec s = Some s' \<and> t = s'\<lparr>guard := 1\<rparr> \<and> guard s' \<le> 1"
    proof (cases "l = r")
      case True
      with "1"(2) s show ?thesis
        by (subst priv_build.simps)
           (fastforce split: bind_splits dest!: tree_set_guard)
    next
      case False
      define mid where "mid = l + int_div (r - l) 2"
      from "1"(2) False obtain a1 a2 x y where
        a1: "f (idx * 2) l mid vec (s\<lparr>guard := 1\<rparr>) = Some a1"
        and a2: "f (idx * 2 + 1) (mid + 1) r vec a1 = Some a2"
        and x: "tree_get (idx * 2) a2 = Some x"
        and y: "tree_get (idx * 2 + 1) a2 = Some y"
        and t: "tree_set idx (x + y) a2 = Some t"
        unfolding s mid_def by (auto simp: Let_def split: bind_splits)
      from IH [OF a1 s(2)] obtain b1 where
        b1: "priv_build (idx * 2) l mid vec s = Some b1" "a1 = b1\<lparr>guard := 1\<rparr>" "guard b1 \<le> 1"
        by blast
      from IH [OF a2 [unfolded b1(2)] b1(3)] obtain b2 where
        b2: "priv_build (idx * 2 + 1) (mid + 1) r vec b1 = Some b2" "a2 = b2\<lparr>guard := 1\<rparr>"
          "guard b2 \<le> 1"
        by blast
      have x': "tree_get (idx * 2) b2 = Some x" and y': "tree_get (idx * 2 + 1) b2 = Some y"
        using x y b2(2,3) by (auto dest: tree_get_guard)
      from t b2(2,3) obtain s' where
        s': "tree_set idx (x + y) b2 = Some s'" "t = s'\<lparr>guard := 1\<rparr>" "guard s' \<le> 1"
        by (auto dest: tree_set_guard)
      have "priv_build idx l r vec s = Some s'"
        by (subst priv_build.simps)
           (simp add: False Let_def mid_def [symmetric] b1(1) b2(1) x' y' s'(1))
      with s'(2,3) show ?thesis by blast
    qed
  qed
qed

lemma add_guard:
  assumes "add v l r (s\<lparr>guard := 1\<rparr>) = Some t" "guard s \<le> 1"
  shows "\<exists>s'. add v l r s = Some s' \<and> t = s'\<lparr>guard := 1\<rparr>"
  using priv_add_guard_aux [of v 1 l r "left_bound s" "right_bound s" "s\<lparr>guard := 1\<rparr>" t] assms
  by (auto simp: add_def)

lemma get_sum_guard:
  assumes "get_sum l r (s\<lparr>guard := 1\<rparr>) = Some (x, t)" "guard s \<le> 1"
  shows "\<exists>s'. get_sum l r s = Some (x, s') \<and> t = s'\<lparr>guard := 1\<rparr>"
  using priv_get_sum_guard_aux [of 1 l r "left_bound s" "right_bound s" "s\<lparr>guard := 1\<rparr>" "(x, t)"]
    assms
  by (auto simp: get_sum_def)

lemma priv_build_guard:
  assumes "priv_build idx l r vec (s\<lparr>guard := 1\<rparr>) = Some t" "guard s \<le> 1"
  shows "\<exists>s'. priv_build idx l r vec s = Some s' \<and> t = s'\<lparr>guard := 1\<rparr>"
  using priv_build_guard_aux [OF assms(1)] assms(2) by blast

text \<open>
  The run of \<^verbatim>\<open>main\<close> (lines 154-186), which is the worked example of the
  specification: the model returns the eleven sums that the program prints.
\<close>

lemma main_scenario:
  "SegmentTree_range 1 50 \<bind>
     results ([GetSum 2 5, Add 1 1 1, GetSum 2 5, GetSum 1 2, Add (- 1) 1 1, GetSum 2 5, GetSum 1 2]
              @ map (\<lambda>i. Add (word_of_int i) (word_of_int i) (word_of_int i)) [1..50]
              @ [GetSum 2 5, GetSum 1 10]
              @ map (\<lambda>i. Add (- word_of_int i) (word_of_int i) (word_of_int i)) [1..50]
              @ [GetSum 2 5, GetSum 1 10, Add 5 10 23, GetSum 2 15, GetSum 10 26])
   = Some [0, 0, 1, 0, 0, 14, 55, 0, 0, 30, 70]"
  by code_simp

section \<open>Sums of \<^verbatim>\<open>int\<close>s and sums of integers\<close>

lemma sum_list_word: "(sum_list vec :: int32) = word_of_int (sum_list (map sint vec))"
  by (induction vec) simp_all

lemma sint_sum_list:
  assumes "- (2 ^ 31) \<le> sum_list (map sint vec)" "sum_list (map sint vec) < 2 ^ 31"
  shows "sint (sum_list vec :: int32) = sum_list (map sint vec)"
  using sum_list_word assms by (rule sint_eqI)

lemma max_tree_reachable: "reachable max_tree"
  using max_tree_reach by (rule reach_reachable)

lemma max_tree_valid: "valid max_tree 0 0"
  by (simp add: valid_def max_tree_def)

lemma pair_tree_reachable: "reachable pair_tree"
  by (rule reachable_vec [OF _ pair_tree_run]) simp

section \<open>The claims\<close>

text \<open>
  Claim C1, as stated: on every reachable tree, for every delta \<open>x\<close>, every valid range
  \<open>[lo, hi]\<close> and every valid point \<open>p\<close>, \<open>get_sum p p\<close> after \<open>add x lo hi\<close> returns the
  value it returned before plus \<open>x\<close> if \<open>p\<close> lies in \<open>[lo, hi]\<close>. It fails in two ways.
  \<^verbatim>\<open>SegmentTree(0, 1073741823)\<close> meets the precondition and returns a tree with empty
  arrays, on which \<open>add 1 0 0\<close> and \<open>get_sum 0 0\<close> leave the arrays. And on the tree built
  from \<open>[2147483647]\<close>, \<open>get_sum 0 0\<close> returns 2147483647 before \<open>add 1 0 0\<close> and
  \<open>- 2147483648\<close> after it, which is not the integer \<open>2147483647 + 1\<close>.
\<close>

theorem add_changes_exactly_the_range_counterexample:
  "SegmentTree_range 0 1073741823 = Some wrapped_tree \<and> reachable wrapped_tree \<and>
   valid wrapped_tree 0 0 \<and>
   add 1 0 0 wrapped_tree = None \<and> get_sum 0 0 wrapped_tree = None \<and>
   SegmentTree_vec [2147483647] = Some max_tree \<and> reachable max_tree \<and> valid max_tree 0 0 \<and>
   map_option (sint \<circ> fst) (get_sum 0 0 max_tree) = Some 2147483647 \<and>
   add 1 0 0 max_tree = Some over_tree \<and>
   map_option (sint \<circ> fst) (get_sum 0 0 over_tree) = Some (- 2147483648) \<and>
   sint (2147483647 :: int32) + sint (1 :: int32) = 2147483648"
proof -
  have a: "map_option (sint \<circ> fst) (get_sum 0 0 max_tree) = Some 2147483647"
    by code_simp
  have b: "map_option (sint \<circ> fst) (get_sum 0 0 over_tree) = Some (- 2147483648)"
    by code_simp
  from wrapped_tree_run wrapped_tree_reachable wrapped_tree_valid(1) wrapped_tree_add(1)
    wrapped_tree_get_sum(1) max_tree_run max_tree_reachable max_tree_valid a over_tree_run b
  show ?thesis by simp
qed

text \<open>
  Claim C1, amended: on every reachable tree whose range fits (\<open>4 * (R - L + 1) < 2 ^ 31\<close>,
  so that the number of slots is an \<^verbatim>\<open>int\<close>), for every delta \<open>x\<close>, every valid range
  \<open>[lo, hi]\<close> and every valid point \<open>p\<close>: \<open>get_sum p p\<close> after \<open>add x lo hi\<close> returns the
  value it returned before the update plus \<open>x\<close>, added as \<^verbatim>\<open>int\<close>s (modulo \<open>2 ^ 32\<close>), if
  \<open>p\<close> lies in \<open>[lo, hi]\<close>, and the same value otherwise. This holds whether the earlier
  \<open>get_sum p p\<close> was really called before the update (states \<open>s1\<close>, \<open>s2\<close>) or not (state
  \<open>t2\<close>).
\<close>

theorem add_changes_exactly_the_range:
  assumes "reachable s" "sized s" "valid s lo hi" "valid s p p"
  shows "\<exists>v s1 s2 s3 t2 t3.
           get_sum p p s = Some (v, s1) \<and>
           add x lo hi s1 = Some s2 \<and>
           get_sum p p s2 = Some (if lo \<le>s p \<and> p \<le>s hi then v + x else v, s3) \<and>
           add x lo hi s = Some t2 \<and>
           get_sum p p t2 = Some (if lo \<le>s p \<and> p \<le>s hi then v + x else v, t3)"
proof -
  obtain a where a: "good s a"
    using reachable_good [OF assms(1,2)] by blast
  let ?a = "range_add x (sint lo) (sint hi) a"
  have after: "range_sum ?a (sint p) (sint p) =
      (if lo \<le>s p \<and> p \<le>s hi then a (sint p) + x else a (sint p))"
    by (simp add: range_sum_single range_add_def word_sle_eq)
  obtain s1 where s1: "get_sum p p s = Some (a (sint p), s1)" "good s1 a" "same_shape s s1"
    using get_sum_good [OF a assms(4)] by (auto simp: range_sum_single)
  obtain s2 where s2: "add x lo hi s1 = Some s2" "good s2 ?a" "same_shape s1 s2"
    using add_good [OF s1(2), of lo hi x] assms(3) s1(3) by (auto simp: valid_same_shape)
  have "valid s2 p p"
    using assms(4) s1(3) s2(3) by (simp add: valid_same_shape)
  then obtain s3 where s3: "get_sum p p s2 = Some (range_sum ?a (sint p) (sint p), s3)"
    using get_sum_good [OF s2(2)] by blast
  obtain t2 where t2: "add x lo hi s = Some t2" "good t2 ?a" "same_shape s t2"
    using add_good [OF a assms(3)] by blast
  have "valid t2 p p"
    using assms(4) t2(3) by (simp add: valid_same_shape)
  then obtain t3 where t3: "get_sum p p t2 = Some (range_sum ?a (sint p) (sint p), t3)"
    using get_sum_good [OF t2(2)] by blast
  from s1(1) s2(1) s3 t2(1) t3 show ?thesis
    unfolding after by blast
qed

theorem add_changes_exactly_the_range_witness:
  "reachable example_tree \<and> sized example_tree \<and> valid example_tree 1 2 \<and>
   valid example_tree 2 2 \<and> valid example_tree 3 3 \<and>
   (\<exists>s1 s2 s3 t2 t3.
      get_sum 2 2 example_tree = Some (4, s1) \<and>
      add 7 1 2 s1 = Some s2 \<and> get_sum 2 2 s2 = Some (11, s3) \<and>
      add 7 1 2 example_tree = Some t2 \<and> get_sum 2 2 t2 = Some (11, t3)) \<and>
   (\<exists>s1 s2 s3 t2 t3.
      get_sum 3 3 example_tree = Some (1, s1) \<and>
      add 7 1 2 s1 = Some s2 \<and> get_sum 3 3 s2 = Some (1, s3) \<and>
      add 7 1 2 example_tree = Some t2 \<and> get_sum 3 3 t2 = Some (1, t3))"
proof -
  have v: "valid example_tree 1 2" "valid example_tree 2 2" "valid example_tree 3 3"
    by (simp_all add: valid_def example_tree_bounds word_sle_eq)
  have e2: "map_option fst (get_sum 2 2 example_tree) = Some 4"
    by code_simp
  have e3: "map_option fst (get_sum 3 3 example_tree) = Some 1"
    by code_simp
  have inside: "\<exists>s1 s2 s3 t2 t3.
      get_sum 2 2 example_tree = Some (4, s1) \<and>
      add 7 1 2 s1 = Some s2 \<and> get_sum 2 2 s2 = Some (11, s3) \<and>
      add 7 1 2 example_tree = Some t2 \<and> get_sum 2 2 t2 = Some (11, t3)"
    using add_changes_exactly_the_range
      [OF example_tree_reachable example_tree_sized v(1) v(2), of 7] e2
    by (auto simp: word_sle_eq)
  have outside: "\<exists>s1 s2 s3 t2 t3.
      get_sum 3 3 example_tree = Some (1, s1) \<and>
      add 7 1 2 s1 = Some s2 \<and> get_sum 3 3 s2 = Some (1, s3) \<and>
      add 7 1 2 example_tree = Some t2 \<and> get_sum 3 3 t2 = Some (1, t3)"
    using add_changes_exactly_the_range
      [OF example_tree_reachable example_tree_sized v(1) v(3), of 7] e3
    by (auto simp: word_sle_eq)
  from example_tree_reachable example_tree_sized v inside outside show ?thesis
    by (intro conjI)
qed

text \<open>
  Claim C2, as stated: for every non-empty input sequence, the bulk constructor returns a
  tree on which \<open>get_sum 0 (length vec - 1)\<close> returns the sum of all elements. It fails in
  two ways. For a sequence of \<open>536870912 = 2 ^ 29\<close> elements the number of slots,
  \<open>4 * 2 ^ 29\<close>, is negative as an \<^verbatim>\<open>int\<close> and the constructor throws. And on the tree
  built from \<open>[2147483647, 1]\<close>, \<open>get_sum 0 1\<close> returns \<open>- 2147483648\<close>, while the sum of
  the elements is 2147483648.
\<close>

theorem bulk_build_total_sum_counterexample:
  "replicate 536870912 (0 :: int32) \<noteq> [] \<and>
   SegmentTree_vec (replicate 536870912 0) = None \<and>
   SegmentTree_vec [2147483647, 1] = Some pair_tree \<and>
   map_option (sint \<circ> fst) (get_sum 0 1 pair_tree) = Some (- 2147483648) \<and>
   sum_list (map sint [2147483647, 1 :: int32]) = 2147483648"
proof -
  have a: "SegmentTree_vec (replicate 536870912 0) = None"
    by (simp add: SegmentTree_vec_def space_needed_def)
  have b: "map_option (sint \<circ> fst) (get_sum 0 1 pair_tree) = Some (- 2147483648)"
    by code_simp
  from a b pair_tree_run show ?thesis by simp
qed

text \<open>
  Claim C2, amended: for every non-empty input sequence \<open>vec\<close> with
  \<open>4 * length vec < 2 ^ 31\<close>, the bulk constructor returns a tree, and on that tree
  \<open>get_sum 0 (length vec - 1)\<close> returns the sum of all elements of \<open>vec\<close>, added as
  \<^verbatim>\<open>int\<close>s (modulo \<open>2 ^ 32\<close>). So it returns the sum of the elements whenever that sum is
  an \<^verbatim>\<open>int\<close>.
\<close>

theorem bulk_build_total_sum:
  assumes "vec \<noteq> []" "4 * int (length vec) < 2 ^ 31"
  shows "\<exists>s s'. SegmentTree_vec vec = Some s \<and>
           get_sum 0 (word_of_nat (length vec) - 1) s = Some (sum_list vec, s') \<and>
           (- (2 ^ 31) \<le> sum_list (map sint vec) \<and> sum_list (map sint vec) < 2 ^ 31 \<longrightarrow>
              sint (sum_list vec) = sum_list (map sint vec))"
proof -
  let ?R = "word_of_nat (length vec) - 1 :: int32"
  have R: "sint ?R = int (length vec) - 1"
    using assms by (rule sint_last_index)
  have "0 \<le> int (length vec) - 1"
    using assms(1) by (cases vec) simp_all
  then have "0 \<le> sint ?R"
    unfolding R .
  moreover have "4 * (sint ?R + 1) < 2 ^ 31"
    unfolding R using assms(2) by simp
  ultimately obtain s where s: "SegmentTree_vec vec = Some s" "good s (of_vec vec)"
    using SegmentTree_vec_good [OF assms(1)] by blast
  have b: "left_bound s = 0" "right_bound s = ?R"
    using SegmentTree_vec_bounds [OF s(1)] by simp_all
  have "valid s 0 ?R"
    using \<open>0 \<le> sint ?R\<close> by (simp add: valid_def b word_sle_eq)
  from get_sum_good [OF s(2) this] s(1) show ?thesis
    by (auto simp: R range_sum_of_vec sint_sum_list)
qed

theorem bulk_build_total_sum_witness:
  "[3, 1, 4] \<noteq> ([] :: int32 list) \<and> 4 * int (length [3, 1, 4 :: int32]) < 2 ^ 31 \<and>
   (\<exists>s s'. SegmentTree_vec [3, 1, 4] = Some s \<and> get_sum 0 2 s = Some (8, s')) \<and>
   - (2 ^ 31) \<le> sum_list (map sint [3, 1, 4 :: int32]) \<and>
   sum_list (map sint [3, 1, 4 :: int32]) < 2 ^ 31 \<and>
   sint (8 :: int32) = sum_list (map sint [3, 1, 4 :: int32])"
  using bulk_build_total_sum [of "[3, 1, 4]"] by simp

text \<open>
  Claim C3, as stated: in every reachable state the aggregate of every node is the sum of
  the point values over the range of the node. It fails in three ways. After \<open>add 5 0 1\<close>
  on the empty tree over \<open>[0, 1]\<close> the update stays at the root, and the left child (slot
  2, range \<open>[0, 0]\<close>) still has the aggregate 0 while the point 0 has the value 5. The
  tree over \<open>[0, 1073741823]\<close> has empty arrays, so its root has no aggregate at all. And
  after \<open>add 1 0 0\<close> on the tree built from \<open>[2147483647]\<close> the aggregate of the root is
  \<open>- 2147483648\<close>, while the point 0 has received \<open>2147483647 + 1\<close>.
\<close>

theorem aggregate_is_true_sum_counterexample:
  "reach \<lparr>left_bound = 0, right_bound = 1,
          tree = [0, 10, 0, 0, 0, 0, 0, 0], tags = [0, 5, 0, 0, 0, 0, 0, 0], guard = 0\<rparr>
     (range_add 5 0 1 zeros) \<and>
   node \<lparr>left_bound = 0, right_bound = 1,
         tree = [0, 10, 0, 0, 0, 0, 0, 0], tags = [0, 5, 0, 0, 0, 0, 0, 0], guard = 0\<rparr> 2 0 0 5 \<and>
   tree \<lparr>left_bound = 0, right_bound = 1,
         tree = [0, 10, 0, 0, 0, 0, 0, 0], tags = [0, 5, 0, 0, 0, 0, 0, 0], guard = 0\<rparr> !
     nat (sint (2 :: int32)) \<noteq>
   range_sum (range_add 5 0 1 zeros) 0 0 \<and>
   reachable wrapped_tree \<and> node wrapped_tree 1 0 1073741823 0 \<and>
   tree_get 1 wrapped_tree = None \<and>
   reach over_tree (range_add 1 0 0 (of_vec [2147483647])) \<and> node over_tree 1 0 0 0 \<and>
   sint (tree over_tree ! nat (sint (1 :: int32))) = - 2147483648 \<and>
   sint (2147483647 :: int32) + sint (1 :: int32) = 2147483648"
proof -
  have a: "node wrapped_tree 1 0 1073741823 0"
    using node_root [of wrapped_tree] by (simp add: wrapped_tree_def)
  have b: "tree_get 1 wrapped_tree = None"
    by (simp add: tree_get_def wrapped_tree_def)
  have c: "node over_tree 1 0 0 0"
    using node_root [of over_tree] by (simp add: over_tree_def)
  have d: "sint (tree over_tree ! nat (sint (1 :: int32))) = - 2147483648"
    by (simp add: over_tree_def)
  from tree_0_1_reach tree_0_1_node wrapped_tree_reachable a b over_tree_reach c d
  show ?thesis
    by (simp add: range_sum_def range_add_def zeros_def)
qed

text \<open>
  Claim C3, amended: in every reachable state of a tree whose range fits
  (\<open>4 * (R - L + 1) < 2 ^ 31\<close>), with point values \<open>a\<close>, the aggregate of every node, plus
  the tags of its proper ancestors (\<open>acc\<close>) times the number of points of the node, is
  the sum of \<open>a\<close> over the range of the node, all computed as \<^verbatim>\<open>int\<close>s (modulo \<open>2 ^ 32\<close>).
  So the aggregate is that sum at every node above which no tag is pending, the root among
  them, and no update is lost.
\<close>

theorem aggregate_plus_pending_tags_is_true_sum:
  assumes "reach s a" "sized s" "node s idx lb rb acc"
  shows "tree s ! nat (sint idx) + acc * (rb - lb + 1) = range_sum a (sint lb) (sint rb)"
proof -
  have "tree_inv (tr s) (tg s) a acc (sint idx) (sint lb) (sint rb)"
    using node_good [OF reach_good [OF assms(1,2)] assms(3)] by simp
  from tree_inv_top [OF this] show ?thesis
    by (simp add: tr_def)
qed

theorem aggregate_plus_pending_tags_is_true_sum_witness:
  "reach example_tree example_values \<and> sized example_tree \<and> node example_tree 5 1 1 2 \<and>
   tree example_tree ! nat (sint (5 :: int32)) = 1 \<and> range_sum example_values 1 1 = 3 \<and>
   tree example_tree ! nat (sint (5 :: int32)) + 2 * (1 - 1 + 1) = range_sum example_values 1 1"
proof -
  have "tree example_tree ! nat (sint (5 :: int32)) = 1"
    by (simp add: example_tree_def)
  with aggregate_plus_pending_tags_is_true_sum
    [OF example_tree_reach example_tree_sized example_tree_node]
    example_tree_reach example_tree_sized example_tree_node
  show ?thesis by simp
qed

text \<open>
  Claim C4, as stated: in every reachable state every leaf has a zero tag. It fails: on
  the tree over \<open>[0, 0]\<close> the root is a leaf, \<open>add 5 0 0\<close> stops at it and adds 5 to its
  tag (lines 55-59 make no difference between a leaf and an inner node). Nor has every
  reachable tree a tag for each node: the arrays of the tree over \<open>[0, 1073741823]\<close> are
  empty, and a call on it leaves them.
\<close>

theorem leaf_tag_is_zero_counterexample:
  "reachable \<lparr>left_bound = 0, right_bound = 0, tree = [0, 5, 0, 0], tags = [0, 5, 0, 0],
              guard = 0\<rparr> \<and>
   node \<lparr>left_bound = 0, right_bound = 0, tree = [0, 5, 0, 0], tags = [0, 5, 0, 0],
         guard = 0\<rparr> 1 0 0 0 \<and>
   tags \<lparr>left_bound = 0, right_bound = 0, tree = [0, 5, 0, 0], tags = [0, 5, 0, 0],
         guard = 0\<rparr> ! nat (sint (1 :: int32)) \<noteq> 0 \<and>
   reachable wrapped_tree \<and> tags wrapped_tree = [] \<and> valid wrapped_tree 0 0 \<and>
   results [GetSum 0 0] wrapped_tree = None"
proof -
  have "results [GetSum 0 0] wrapped_tree = None"
    by code_simp
  with tree_0_0_reachable tree_0_0_node wrapped_tree_reachable wrapped_tree_valid(1)
  show ?thesis
    by (simp add: wrapped_tree_def)
qed

text \<open>
  Claim C4, amended: the tag of a leaf can be any number, and it means nothing. The
  push-down is skipped at a leaf (the guard \<^verbatim>\<open>left_bound != right_bound\<close>), so nothing
  reads the tag of a leaf: in every reachable state of a tree whose range fits
  (\<open>4 * (R - L + 1) < 2 ^ 31\<close>), writing any value \<open>t\<close> into the tag of a leaf changes no
  sum that any sequence of later valid calls returns.
\<close>

theorem leaf_tag_is_not_observable:
  assumes "reachable s" "sized s" "node s idx lb lb acc" "\<forall>q \<in> set ops. valid_op s q"
  shows "\<exists>xs. results ops (s\<lparr>tags := (tags s)[nat (sint idx) := t]\<rparr>) = Some xs \<and>
              results ops s = Some xs"
proof -
  obtain f where f: "good s f"
    using reachable_good [OF assms(1,2)] by blast
  let ?s = "s\<lparr>tags := (tags s)[nat (sint idx) := t]\<rparr>"
  have "good ?s f"
    using f assms(3) by (rule good_leaf_tag)
  moreover have "same_shape s ?s"
    by (simp add: same_shape_def)
  then have "\<forall>q \<in> set ops. valid_op ?s q"
    using assms(4) by (simp add: valid_op_same_shape)
  ultimately have "results ops ?s = Some (sums ops f)"
    by (rule results_good)
  moreover have "results ops s = Some (sums ops f)"
    using f assms(4) by (rule results_good)
  ultimately show ?thesis by simp
qed

theorem leaf_tag_is_not_observable_witness:
  "reachable example_tree \<and> sized example_tree \<and> node example_tree 5 1 1 2 \<and>
   valid_op example_tree (GetSum 1 1) \<and> valid_op example_tree (Add 2 0 3) \<and>
   valid_op example_tree (GetSum 1 3) \<and>
   results [GetSum 1 1, Add 2 0 3, GetSum 1 3]
     (example_tree\<lparr>tags := (tags example_tree)[nat (sint (5 :: int32)) := 99]\<rparr>) = Some [3, 14] \<and>
   results [GetSum 1 1, Add 2 0 3, GetSum 1 3] example_tree = Some [3, 14]"
proof -
  have e: "results [GetSum 1 1, Add 2 0 3, GetSum 1 3] example_tree = Some [3, 14]"
    by code_simp
  have v: "\<forall>q \<in> set [GetSum 1 1, Add 2 0 3, GetSum 1 3]. valid_op example_tree q"
    by (simp add: valid_def example_tree_bounds word_sle_eq)
  from leaf_tag_is_not_observable
    [OF example_tree_reachable example_tree_sized example_tree_node v, of 99] e
    example_tree_reachable example_tree_sized example_tree_node v
  show ?thesis by simp
qed

text \<open>
  Claim C5, as stated: on every reachable tree and for all \<open>a \<le> b < c\<close> within the
  bounds, \<open>get_sum a c\<close> returns the sum of what \<open>get_sum a b\<close> and \<open>get_sum (b + 1) c\<close>
  return. It fails in two ways. On the tree over \<open>[0, 1073741823]\<close>, whose arrays are
  empty, \<open>get_sum 0 1\<close> leaves the arrays. And on the tree built from \<open>[2147483647, 1]\<close>,
  \<open>get_sum 0 1\<close> returns \<open>- 2147483648\<close>, while \<open>get_sum 0 0\<close> returns 2147483647 and
  \<open>get_sum 1 1\<close> returns 1.
\<close>

theorem get_sum_additive_counterexample:
  "reachable wrapped_tree \<and> valid wrapped_tree 0 1 \<and> get_sum 0 1 wrapped_tree = None \<and>
   reachable pair_tree \<and>
   map_option (sint \<circ> fst) (get_sum 0 1 pair_tree) = Some (- 2147483648) \<and>
   map_option (sint \<circ> fst) (get_sum 0 0 pair_tree) = Some 2147483647 \<and>
   map_option (sint \<circ> fst) (get_sum 1 1 pair_tree) = Some 1"
proof -
  have a: "map_option (sint \<circ> fst) (get_sum 0 1 pair_tree) = Some (- 2147483648)"
    by code_simp
  have b: "map_option (sint \<circ> fst) (get_sum 0 0 pair_tree) = Some 2147483647"
    by code_simp
  have c: "map_option (sint \<circ> fst) (get_sum 1 1 pair_tree) = Some 1"
    by code_simp
  from wrapped_tree_reachable wrapped_tree_valid(2) wrapped_tree_get_sum(2)
    pair_tree_reachable a b c
  show ?thesis by simp
qed

text \<open>
  Claim C5, amended: on every reachable tree whose range fits
  (\<open>4 * (R - L + 1) < 2 ^ 31\<close>) and for all \<open>a \<le> b < c\<close> within the bounds, \<open>get_sum a c\<close>
  returns the sum of what \<open>get_sum a b\<close> and \<open>get_sum (b + 1) c\<close> return, added as
  \<^verbatim>\<open>int\<close>s (modulo \<open>2 ^ 32\<close>), whether the three calls are made one after the other
  (states \<open>s1\<close>, \<open>s2\<close>) or each on the tree as it was.
\<close>

theorem get_sum_additive:
  assumes "reachable s" "sized s"
    and "left_bound s \<le>s a" "a \<le>s b" "b <s c" "c \<le>s right_bound s"
  shows "\<exists>x y z s1 s2 s3 t2 t3.
           get_sum a c s = Some (x, s1) \<and>
           get_sum a b s1 = Some (y, s2) \<and>
           get_sum (b + 1) c s2 = Some (z, s3) \<and>
           get_sum a b s = Some (y, t2) \<and>
           get_sum (b + 1) c s = Some (z, t3) \<and>
           x = y + z"
proof -
  obtain f where f: "good s f"
    using reachable_good [OF assms(1,2)] by blast
  have lt: "sint b < sint c"
    using assms(5) by (simp add: word_sless_alt)
  then have b1: "sint (b + 1) = sint b + 1"
    by (rule sint_succ)
  have v: "valid s a c" "valid s a b" "valid s (b + 1) c"
    using assms(3-) lt by (simp_all add: valid_def word_sle_eq b1)
  have "range_sum f (sint a) (sint c) =
        range_sum f (sint a) (sint b) + range_sum f (sint b + 1) (sint c)"
    using assms(4) lt by (intro range_sum_split) (simp_all add: word_sle_eq)
  then have split: "range_sum f (sint a) (sint c) =
        range_sum f (sint a) (sint b) + range_sum f (sint (b + 1)) (sint c)"
    by (simp add: b1)
  obtain s1 where s1: "get_sum a c s = Some (range_sum f (sint a) (sint c), s1)" "good s1 f"
      "same_shape s s1"
    using get_sum_good [OF f v(1)] by blast
  obtain s2 where s2: "get_sum a b s1 = Some (range_sum f (sint a) (sint b), s2)" "good s2 f"
      "same_shape s1 s2"
    using get_sum_good [OF s1(2), of a b] v(2) s1(3) by (auto simp: valid_same_shape)
  have "valid s2 (b + 1) c"
    using v(3) s1(3) s2(3) by (simp add: valid_same_shape)
  then obtain s3 where
    s3: "get_sum (b + 1) c s2 = Some (range_sum f (sint (b + 1)) (sint c), s3)"
    using get_sum_good [OF s2(2)] by blast
  obtain t2 where t2: "get_sum a b s = Some (range_sum f (sint a) (sint b), t2)"
    using get_sum_good [OF f v(2)] by blast
  obtain t3 where t3: "get_sum (b + 1) c s = Some (range_sum f (sint (b + 1)) (sint c), t3)"
    using get_sum_good [OF f v(3)] by blast
  from s1(1) s2(1) s3 t2 t3 split show ?thesis by blast
qed

theorem get_sum_additive_witness:
  "reachable example_tree \<and> sized example_tree \<and>
   left_bound example_tree \<le>s 0 \<and> (0 :: int32) \<le>s 1 \<and> (1 :: int32) <s 3 \<and>
   3 \<le>s right_bound example_tree \<and>
   (\<exists>s1 s2 s3 t2 t3.
      get_sum 0 3 example_tree = Some (13, s1) \<and>
      get_sum 0 1 s1 = Some (8, s2) \<and> get_sum 2 3 s2 = Some (5, s3) \<and>
      get_sum 0 1 example_tree = Some (8, t2) \<and> get_sum 2 3 example_tree = Some (5, t3))"
proof -
  have e1: "map_option fst (get_sum 0 3 example_tree) = Some 13"
    by code_simp
  have e2: "map_option fst (get_sum 0 1 example_tree) = Some 8"
    by code_simp
  have b: "left_bound example_tree \<le>s 0" "(0 :: int32) \<le>s 1" "(1 :: int32) <s 3"
    "3 \<le>s right_bound example_tree"
    by (simp_all add: example_tree_bounds word_sle_eq word_sless_alt)
  have "\<exists>s1 s2 s3 t2 t3.
      get_sum 0 3 example_tree = Some (13, s1) \<and>
      get_sum 0 1 s1 = Some (8, s2) \<and> get_sum 2 3 s2 = Some (5, s3) \<and>
      get_sum 0 1 example_tree = Some (8, t2) \<and> get_sum 2 3 example_tree = Some (5, t3)"
    using get_sum_additive [OF example_tree_reachable example_tree_sized b] e1 e2
    by auto
  with example_tree_reachable example_tree_sized b show ?thesis by simp
qed

text \<open>
  Claim C6, as stated: on every reachable tree, for all deltas and all valid ranges
  \<open>[a, b]\<close> and \<open>[c, d]\<close>, \<open>add x1 a b\<close> then \<open>add x2 c d\<close> yields a tree on which later
  calls return the same sums as after the two calls in the other order. It fails on the
  tree over \<open>[0, 1073741823]\<close>: its arrays are empty, \<open>add 1 0 0\<close> and \<open>add 2 0 1\<close> leave
  them, and neither order yields a tree.
\<close>

theorem adds_commute_counterexample:
  "SegmentTree_range 0 1073741823 = Some wrapped_tree \<and> reachable wrapped_tree \<and>
   valid wrapped_tree 0 0 \<and> valid wrapped_tree 0 1 \<and>
   add 1 0 0 wrapped_tree = None \<and> add 2 0 1 wrapped_tree = None \<and>
   results [Add 1 0 0, Add 2 0 1] wrapped_tree = None \<and>
   results [Add 2 0 1, Add 1 0 0] wrapped_tree = None"
proof -
  have "results [Add 1 0 0, Add 2 0 1] wrapped_tree = None"
    "results [Add 2 0 1, Add 1 0 0] wrapped_tree = None"
    by code_simp+
  with wrapped_tree_run wrapped_tree_reachable wrapped_tree_valid(1,2) wrapped_tree_add(1,3)
  show ?thesis by simp
qed

text \<open>
  Claim C6, amended: on every reachable tree whose range fits
  (\<open>4 * (R - L + 1) < 2 ^ 31\<close>), for all deltas \<open>x1\<close>, \<open>x2\<close> and all valid ranges \<open>[a, b]\<close>
  and \<open>[c, d]\<close>: after \<open>add x1 a b\<close> then \<open>add x2 c d\<close>, every sequence of later valid
  calls returns the same sums as after \<open>add x2 c d\<close> then \<open>add x1 a b\<close>.
\<close>

theorem adds_commute:
  assumes "reachable s" "sized s" "valid s a b" "valid s c d" "\<forall>q \<in> set ops. valid_op s q"
  shows "\<exists>xs. results (Add x1 a b # Add x2 c d # ops) s = Some xs \<and>
              results (Add x2 c d # Add x1 a b # ops) s = Some xs"
proof -
  obtain f where f: "good s f"
    using reachable_good [OF assms(1,2)] by blast
  have "results (Add x1 a b # Add x2 c d # ops) s = Some (sums (Add x1 a b # Add x2 c d # ops) f)"
    using assms(3-) by (intro results_good [OF f]) simp
  moreover
  have "results (Add x2 c d # Add x1 a b # ops) s = Some (sums (Add x2 c d # Add x1 a b # ops) f)"
    using assms(3-) by (intro results_good [OF f]) simp
  ultimately show ?thesis
    by (simp add: range_add_commute [of x2 "sint c" "sint d" x1 "sint a" "sint b"])
qed

theorem adds_commute_witness:
  "reachable example_tree \<and> sized example_tree \<and>
   valid example_tree 0 2 \<and> valid example_tree 1 3 \<and>
   valid_op example_tree (GetSum 1 1) \<and> valid_op example_tree (GetSum 0 3) \<and>
   results [Add 5 0 2, Add 3 1 3, GetSum 1 1, GetSum 0 3] example_tree = Some [11, 37] \<and>
   results [Add 3 1 3, Add 5 0 2, GetSum 1 1, GetSum 0 3] example_tree = Some [11, 37]"
proof -
  have v: "valid example_tree 0 2" "valid example_tree 1 3"
    "\<forall>q \<in> set [GetSum 1 1, GetSum 0 3]. valid_op example_tree q"
    by (simp_all add: valid_def example_tree_bounds word_sle_eq)
  have e: "results [Add 5 0 2, Add 3 1 3, GetSum 1 1, GetSum 0 3] example_tree = Some [11, 37]"
    by code_simp
  from adds_commute [OF example_tree_reachable example_tree_sized v, of 5 3] e
    example_tree_reachable example_tree_sized v
  show ?thesis by simp
qed

text \<open>
  Claim C7, as stated: on every reachable tree, for every \<open>x\<close> and every valid index \<open>i\<close>,
  the calls \<open>add x i i\<close> and \<open>add (- x) i i\<close> leave every later sum as it was. It fails on
  the tree over \<open>[0, 1073741823]\<close>: its arrays are empty and \<open>add 5 3 3\<close>, the first of
  the two calls, leaves them.
\<close>

theorem add_and_inverse_cancel_counterexample:
  "SegmentTree_range 0 1073741823 = Some wrapped_tree \<and> reachable wrapped_tree \<and>
   valid wrapped_tree 3 3 \<and> add 5 3 3 wrapped_tree = None \<and>
   results [Add 5 3 3, Add (- 5) 3 3] wrapped_tree = None"
proof -
  have "results [Add 5 3 3, Add (- 5) 3 3] wrapped_tree = None"
    by code_simp
  with wrapped_tree_run wrapped_tree_reachable wrapped_tree_valid(3) wrapped_tree_add(2)
  show ?thesis by simp
qed

text \<open>
  Claim C7, amended: on every reachable tree whose range fits
  (\<open>4 * (R - L + 1) < 2 ^ 31\<close>), for every \<open>x\<close> and every valid index \<open>i\<close>: after
  \<open>add x i i\<close> then \<open>add (- x) i i\<close>, every sequence of later valid calls returns the same
  sums as without the two calls. The negation is the one of \<^verbatim>\<open>int\<close>, which maps
  \<open>- 2147483648\<close> to itself.
\<close>

theorem add_and_inverse_cancel:
  assumes "reachable s" "sized s" "valid s i i" "\<forall>q \<in> set ops. valid_op s q"
  shows "\<exists>xs. results (Add x i i # Add (- x) i i # ops) s = Some xs \<and> results ops s = Some xs"
proof -
  obtain f where f: "good s f"
    using reachable_good [OF assms(1,2)] by blast
  have "results (Add x i i # Add (- x) i i # ops) s =
        Some (sums (Add x i i # Add (- x) i i # ops) f)"
    using assms(3-) by (intro results_good [OF f]) simp
  moreover have "results ops s = Some (sums ops f)"
    using assms(4) by (intro results_good [OF f])
  ultimately show ?thesis
    by (simp add: range_add_inverse)
qed

theorem add_and_inverse_cancel_witness:
  "reachable example_tree \<and> sized example_tree \<and> valid example_tree 2 2 \<and>
   valid_op example_tree (GetSum 2 2) \<and> valid_op example_tree (GetSum 0 3) \<and>
   results [Add 5 2 2, Add (- 5) 2 2, GetSum 2 2, GetSum 0 3] example_tree = Some [4, 13] \<and>
   results [GetSum 2 2, GetSum 0 3] example_tree = Some [4, 13]"
proof -
  have v: "valid example_tree 2 2"
    "\<forall>q \<in> set [GetSum 2 2, GetSum 0 3]. valid_op example_tree q"
    by (simp_all add: valid_def example_tree_bounds word_sle_eq)
  have e: "results [GetSum 2 2, GetSum 0 3] example_tree = Some [4, 13]"
    by code_simp
  from add_and_inverse_cancel [OF example_tree_reachable example_tree_sized v, of 5] e
    example_tree_reachable example_tree_sized v
  show ?thesis by simp
qed

text \<open>
  Claim C8, as stated: for every tree constructed over \<open>[L, R]\<close> with \<open>L \<le> R\<close> the arrays
  have \<open>4 * (R - L + 1)\<close> slots and no access leaves them. It fails once
  \<open>4 * (R - L + 1)\<close> is not an \<^verbatim>\<open>int\<close>. For \<open>[0, 1073741823]\<close> the product is 0 as an
  \<^verbatim>\<open>int\<close> (line 28): the constructor returns empty arrays, not arrays of 4294967296
  slots, and \<open>get_sum 0 0\<close> reads slot 1 outside them. For \<open>[0, 536870911]\<close> the product is
  negative and the constructor throws.
\<close>

theorem arrays_of_four_times_the_range_suffice_counterexample:
  "(0 :: int32) \<le>s 1073741823 \<and> SegmentTree_range 0 1073741823 = Some wrapped_tree \<and>
   length (tree wrapped_tree) = 0 \<and> length (tags wrapped_tree) = 0 \<and>
   4 * (sint (1073741823 :: int32) - sint (0 :: int32) + 1) = 4294967296 \<and>
   valid wrapped_tree 0 0 \<and> tags_get 1 wrapped_tree = None \<and>
   get_sum 0 0 wrapped_tree = None \<and> add 1 0 0 wrapped_tree = None \<and>
   (0 :: int32) \<le>s 536870911 \<and> SegmentTree_range 0 536870911 = None"
proof -
  have "SegmentTree_range 0 536870911 = None"
    by (simp add: SegmentTree_range_def space_needed_def)
  with wrapped_tree_run wrapped_tree_valid(1) wrapped_tree_get_sum(1) wrapped_tree_add(1)
  show ?thesis
    by (simp add: wrapped_tree_def tags_get_def word_sle_eq)
qed

text \<open>
  Claim C8, amended: the claim holds for the ranges with \<open>4 * (R - L + 1) < 2 ^ 31\<close>. For
  such a range both constructors allocate two arrays of \<open>4 * (R - L + 1)\<close> slots (for the
  bulk constructor \<open>L = 0\<close> and \<open>R = length vec - 1\<close>) and return a tree. In every reachable
  state the arrays still have that size, every node of the tree has its slot between 1 and
  \<open>4 * (R - L + 1) - 1\<close>, and \<open>add\<close> and \<open>get_sum\<close> on a valid range return a result. The
  same runs on a tree with \<open>guard\<close> 1, where an access of slot 0 or of a slot from
  \<open>4 * (R - L + 1)\<close> on would fail, return the same results: no access of \<^verbatim>\<open>_build\<close>,
  \<^verbatim>\<open>_add\<close> or \<^verbatim>\<open>_get_sum\<close> leaves the slots \<open>1 .. 4 * (R - L + 1) - 1\<close>.
\<close>

theorem arrays_of_four_times_the_range_suffice:
  "(sint L \<le> sint R \<and> 4 * (sint R - sint L + 1) < 2 ^ 31 \<longrightarrow>
      (\<exists>s. SegmentTree_range L R = Some s \<and>
           int (length (tree s)) = 4 * (sint R - sint L + 1) \<and>
           int (length (tags s)) = 4 * (sint R - sint L + 1))) \<and>
   (vec \<noteq> [] \<and> 4 * int (length vec) < 2 ^ 31 \<longrightarrow>
      (\<exists>s0 s. SegmentTree_range 0 (word_of_nat (length vec) - 1) = Some s0 \<and>
           priv_build 1 0 (word_of_nat (length vec) - 1) vec (s0\<lparr>guard := 1\<rparr>) =
             Some (s\<lparr>guard := 1\<rparr>) \<and>
           SegmentTree_vec vec = Some s \<and>
           int (length (tree s)) = 4 * int (length vec) \<and>
           int (length (tags s)) = 4 * int (length vec))) \<and>
   (reachable s \<and> sized s \<longrightarrow>
      int (length (tree s)) = 4 * (sint (right_bound s) - sint (left_bound s) + 1) \<and>
      int (length (tags s)) = 4 * (sint (right_bound s) - sint (left_bound s) + 1) \<and>
      (node s idx lb rb acc \<longrightarrow>
         1 \<le> sint idx \<and> sint idx \<le> 4 * (sint (right_bound s) - sint (left_bound s) + 1) - 1) \<and>
      (valid s l r \<longrightarrow>
         (\<exists>s'. add v l r s = Some s' \<and> add v l r (s\<lparr>guard := 1\<rparr>) = Some (s'\<lparr>guard := 1\<rparr>)) \<and>
         (\<exists>x s'. get_sum l r s = Some (x, s') \<and>
                 get_sum l r (s\<lparr>guard := 1\<rparr>) = Some (x, s'\<lparr>guard := 1\<rparr>))))"
proof (intro conjI impI)
  assume "sint L \<le> sint R \<and> 4 * (sint R - sint L + 1) < 2 ^ 31"
  then obtain s0 where "SegmentTree_range L R = Some s0" "good s0 zeros"
    using SegmentTree_range_good [of L R] by blast
  with SegmentTree_range_bounds [of L R s0]
  show "\<exists>s. SegmentTree_range L R = Some s \<and>
      int (length (tree s)) = 4 * (sint R - sint L + 1) \<and>
      int (length (tags s)) = 4 * (sint R - sint L + 1)"
    by (auto simp: good_def)
next
  let ?R = "word_of_nat (length vec) - 1 :: int32"
  assume a: "vec \<noteq> [] \<and> 4 * int (length vec) < 2 ^ 31"
  then have R: "sint ?R = int (length vec) - 1"
    by (intro sint_last_index) simp_all
  have "0 \<le> int (length vec) - 1"
    using a by (cases vec) simp_all
  then have R0: "0 \<le> sint ?R"
    unfolding R .
  have R4: "4 * (sint ?R + 1) < 2 ^ 31"
    unfolding R using a by simp
  from a have ne: "vec \<noteq> []" by simp
  from priv_build_good [OF ne R0 R4, of 1] obtain s0 t where
    t: "SegmentTree_range 0 ?R = Some s0" "priv_build 1 0 ?R vec (s0\<lparr>guard := 1\<rparr>) = Some t"
    by auto
  have "guard s0 \<le> 1"
    using SegmentTree_range_bounds [OF t(1)] by simp
  from priv_build_guard [OF t(2) this] obtain s1 where
    s1: "priv_build 1 0 ?R vec s0 = Some s1" "t = s1\<lparr>guard := 1\<rparr>"
    by blast
  have run: "SegmentTree_vec vec = Some s1"
    using t(1) s1(1) by (simp add: SegmentTree_vec_range)
  from SegmentTree_vec_good [OF ne R0 R4] run have "good s1 (of_vec vec)"
    by simp
  moreover have "left_bound s1 = 0" "right_bound s1 = ?R"
    using SegmentTree_vec_bounds [OF run] by simp_all
  ultimately have "int (length (tree s1)) = 4 * int (length vec)"
    "int (length (tags s1)) = 4 * int (length vec)"
    by (simp_all add: good_def R)
  with t s1 run
  show "\<exists>s0 s. SegmentTree_range 0 ?R = Some s0 \<and>
      priv_build 1 0 ?R vec (s0\<lparr>guard := 1\<rparr>) = Some (s\<lparr>guard := 1\<rparr>) \<and>
      SegmentTree_vec vec = Some s \<and>
      int (length (tree s)) = 4 * int (length vec) \<and>
      int (length (tags s)) = 4 * int (length vec)"
    by blast
next
  assume "reachable s \<and> sized s"
  then obtain f where f: "good s f"
    using reachable_good by blast
  then show "int (length (tree s)) = 4 * (sint (right_bound s) - sint (left_bound s) + 1)"
    and "int (length (tags s)) = 4 * (sint (right_bound s) - sint (left_bound s) + 1)"
    by (simp_all add: good_def)
  have g: "guard s \<le> 1"
    using f by (simp add: good_def)
  have f1: "good (s\<lparr>guard := 1\<rparr>) f"
    using f by (rule good_guard) simp
  {
    assume "node s idx lb rb acc"
    then have "fits (4 * (sint (right_bound s) - sint (left_bound s) + 1))
                 (sint idx) (sint lb) (sint rb)"
      using node_good [OF f] by blast
    then have "1 \<le> sint idx \<and> sint idx < 4 * (sint (right_bound s) - sint (left_bound s) + 1)"
      by (rule fits_here)
    then show "1 \<le> sint idx"
      and "sint idx \<le> 4 * (sint (right_bound s) - sint (left_bound s) + 1) - 1"
      by simp_all
  }
  {
    assume v: "valid s l r"
    then have v1: "valid (s\<lparr>guard := 1\<rparr>) l r"
      by (simp add: valid_def)
    from add_good [OF f1 v1, of v] obtain t where
      t: "add v l r (s\<lparr>guard := 1\<rparr>) = Some t"
      by blast
    from add_guard [OF t g] t
    show "\<exists>s'. add v l r s = Some s' \<and> add v l r (s\<lparr>guard := 1\<rparr>) = Some (s'\<lparr>guard := 1\<rparr>)"
      by auto
    from get_sum_good [OF f1 v1] obtain x u where
      u: "get_sum l r (s\<lparr>guard := 1\<rparr>) = Some (x, u)"
      by blast
    from get_sum_guard [OF u g] u
    show "\<exists>x s'. get_sum l r s = Some (x, s') \<and>
        get_sum l r (s\<lparr>guard := 1\<rparr>) = Some (x, s'\<lparr>guard := 1\<rparr>)"
      by auto
  }
qed

theorem arrays_of_four_times_the_range_suffice_witness:
  "sint (0 :: int32) \<le> sint (3 :: int32) \<and>
   4 * (sint (3 :: int32) - sint (0 :: int32) + 1) < (2 :: int) ^ 31 \<and>
   [3, 1, 4, 1] \<noteq> ([] :: int32 list) \<and> 4 * int (length [3, 1, 4, 1 :: int32]) < 2 ^ 31 \<and>
   reachable example_tree \<and> sized example_tree \<and> node example_tree 5 1 1 2 \<and>
   valid example_tree 1 2 \<and>
   (\<exists>s. SegmentTree_range 0 3 = Some s \<and> int (length (tree s)) = 16 \<and> int (length (tags s)) = 16) \<and>
   (\<exists>s0 s. SegmentTree_range 0 3 = Some s0 \<and>
        priv_build 1 0 3 [3, 1, 4, 1] (s0\<lparr>guard := 1\<rparr>) = Some (s\<lparr>guard := 1\<rparr>) \<and>
        SegmentTree_vec [3, 1, 4, 1] = Some s \<and>
        int (length (tree s)) = 16 \<and> int (length (tags s)) = 16) \<and>
   int (length (tree example_tree)) = 16 \<and> int (length (tags example_tree)) = 16 \<and>
   1 \<le> sint (5 :: int32) \<and> sint (5 :: int32) \<le> 4 * (sint (3 :: int32) - sint (0 :: int32) + 1) - 1 \<and>
   (\<exists>s'. add 7 1 2 example_tree = Some s' \<and>
         add 7 1 2 (example_tree\<lparr>guard := 1\<rparr>) = Some (s'\<lparr>guard := 1\<rparr>)) \<and>
   (\<exists>x s'. get_sum 1 2 example_tree = Some (x, s') \<and>
           get_sum 1 2 (example_tree\<lparr>guard := 1\<rparr>) = Some (x, s'\<lparr>guard := 1\<rparr>))"
proof -
  have v: "valid example_tree 1 2"
    by (simp add: valid_def example_tree_bounds word_sle_eq)
  note b = example_tree_bounds
  from arrays_of_four_times_the_range_suffice
    [of 0 3 "[3, 1, 4, 1]" example_tree 5 1 1 2 1 2 7]
    example_tree_reachable example_tree_sized example_tree_node v b
  show ?thesis by simp
qed

text \<open>
  Claim C9, as stated: on every reachable tree and for every valid range, \<open>get_sum l r\<close>
  changes the result of no later \<open>get_sum\<close>, and two calls in a row return equal values.
  It fails on the tree over \<open>[0, 1073741823]\<close>: its arrays are empty and \<open>get_sum 0 0\<close>
  leaves them, so that no value is returned, the first time or the second.
\<close>

theorem get_sum_observationally_pure_counterexample:
  "SegmentTree_range 0 1073741823 = Some wrapped_tree \<and> reachable wrapped_tree \<and>
   valid wrapped_tree 0 0 \<and> get_sum 0 0 wrapped_tree = None \<and>
   results [GetSum 0 0, GetSum 0 0] wrapped_tree = None"
proof -
  have "results [GetSum 0 0, GetSum 0 0] wrapped_tree = None"
    by code_simp
  with wrapped_tree_run wrapped_tree_reachable wrapped_tree_valid(1) wrapped_tree_get_sum(1)
  show ?thesis by simp
qed

text \<open>
  Claim C9, amended: on every reachable tree whose range fits
  (\<open>4 * (R - L + 1) < 2 ^ 31\<close>) and for every valid range \<open>[l, r]\<close>, \<open>get_sum l r\<close> returns
  a sum \<open>x\<close> and a tree \<open>s'\<close> on which every sequence of later valid calls returns the same
  sums as on the tree before the call; and a second \<open>get_sum l r\<close> returns \<open>x\<close> again.
\<close>

theorem get_sum_observationally_pure:
  assumes "reachable s" "sized s" "valid s l r" "\<forall>q \<in> set ops. valid_op s q"
  shows "\<exists>x s' s'' xs.
           get_sum l r s = Some (x, s') \<and> get_sum l r s' = Some (x, s'') \<and>
           results ops s' = Some xs \<and> results ops s = Some xs"
proof -
  obtain f where f: "good s f"
    using reachable_good [OF assms(1,2)] by blast
  obtain s' where s': "get_sum l r s = Some (range_sum f (sint l) (sint r), s')" "good s' f"
      "same_shape s s'"
    using get_sum_good [OF f assms(3)] by blast
  have "valid s' l r"
    using assms(3) s'(3) by (simp add: valid_same_shape)
  then obtain s'' where s'': "get_sum l r s' = Some (range_sum f (sint l) (sint r), s'')"
    using get_sum_good [OF s'(2)] by blast
  have "\<forall>q \<in> set ops. valid_op s' q"
    using assms(4) s'(3) by (simp add: valid_op_same_shape)
  then have "results ops s' = Some (sums ops f)"
    by (intro results_good [OF s'(2)])
  moreover have "results ops s = Some (sums ops f)"
    using assms(4) by (intro results_good [OF f])
  ultimately show ?thesis
    using s'(1) s'' by blast
qed

theorem get_sum_observationally_pure_witness:
  "reachable example_tree \<and> sized example_tree \<and> valid example_tree 1 2 \<and>
   valid_op example_tree (GetSum 0 3) \<and> valid_op example_tree (Add 4 1 1) \<and>
   valid_op example_tree (GetSum 1 2) \<and>
   (\<exists>s' s''.
      get_sum 1 2 example_tree = Some (7, s') \<and> get_sum 1 2 s' = Some (7, s'') \<and>
      results [GetSum 0 3, Add 4 1 1, GetSum 1 2] s' = Some [13, 11] \<and>
      results [GetSum 0 3, Add 4 1 1, GetSum 1 2] example_tree = Some [13, 11])"
proof -
  have v: "valid example_tree 1 2"
    "\<forall>q \<in> set [GetSum 0 3, Add 4 1 1, GetSum 1 2]. valid_op example_tree q"
    by (simp_all add: valid_def example_tree_bounds word_sle_eq)
  have e1: "map_option fst (get_sum 1 2 example_tree) = Some 7"
    by code_simp
  have e2: "results [GetSum 0 3, Add 4 1 1, GetSum 1 2] example_tree = Some [13, 11]"
    by code_simp
  have "\<exists>s' s''.
      get_sum 1 2 example_tree = Some (7, s') \<and> get_sum 1 2 s' = Some (7, s'') \<and>
      results [GetSum 0 3, Add 4 1 1, GetSum 1 2] s' = Some [13, 11] \<and>
      results [GetSum 0 3, Add 4 1 1, GetSum 1 2] example_tree = Some [13, 11]"
    using get_sum_observationally_pure [OF example_tree_reachable example_tree_sized v] e1 e2
    by auto
  with example_tree_reachable example_tree_sized v show ?thesis by simp
qed

text \<open>
  Claim C10, as stated: for every non-empty input sequence \<open>vec\<close> and every index \<open>i\<close> of
  it, \<open>get_sum i i\<close> on the freshly built tree returns the element of \<open>vec\<close> at \<open>i\<close>. It
  fails for a sequence of \<open>536870912 = 2 ^ 29\<close> elements: the number of slots,
  \<open>4 * 2 ^ 29\<close>, is negative as an \<^verbatim>\<open>int\<close>, the constructor throws, and there is no tree
  to ask.
\<close>

theorem bulk_build_point_value_counterexample:
  "replicate 536870912 (7 :: int32) \<noteq> [] \<and>
   0 \<le> sint (5 :: int32) \<and> sint (5 :: int32) \<le> int (length (replicate 536870912 (7 :: int32))) - 1 \<and>
   SegmentTree_vec (replicate 536870912 7) = None \<and>
   SegmentTree_vec (replicate 536870912 7) \<bind> get_sum 5 5 = None"
proof -
  have "SegmentTree_vec (replicate 536870912 7) = None"
    by (simp add: SegmentTree_vec_def space_needed_def)
  then show ?thesis by simp
qed

text \<open>
  Claim C10, amended: for every non-empty input sequence \<open>vec\<close> with
  \<open>4 * length vec < 2 ^ 31\<close> and every index \<open>i\<close> with \<open>0 \<le> i \<le> length vec - 1\<close>,
  \<open>get_sum i i\<close> on the freshly built tree returns the element of \<open>vec\<close> at \<open>i\<close>.
\<close>

theorem bulk_build_point_value:
  assumes "vec \<noteq> []" "4 * int (length vec) < 2 ^ 31"
    and "0 \<le> sint i" "sint i \<le> int (length vec) - 1"
  shows "\<exists>s s'. SegmentTree_vec vec = Some s \<and> get_sum i i s = Some (vec ! nat (sint i), s')"
proof -
  let ?R = "word_of_nat (length vec) - 1 :: int32"
  have R: "sint ?R = int (length vec) - 1"
    using assms(1,2) by (rule sint_last_index)
  have "0 \<le> int (length vec) - 1"
    using assms(1) by (cases vec) simp_all
  then have "0 \<le> sint ?R"
    unfolding R .
  moreover have "4 * (sint ?R + 1) < 2 ^ 31"
    unfolding R using assms(2) by simp
  ultimately obtain s where s: "SegmentTree_vec vec = Some s" "good s (of_vec vec)"
    using SegmentTree_vec_good [OF assms(1)] by blast
  have b: "left_bound s = 0" "right_bound s = ?R"
    using SegmentTree_vec_bounds [OF s(1)] by simp_all
  have "valid s i i"
    using assms(3,4) by (simp add: valid_def b word_sle_eq R)
  moreover have "range_sum (of_vec vec) (sint i) (sint i) = vec ! nat (sint i)"
    using assms(3,4) by (simp add: range_sum_single of_vec_def)
  ultimately show ?thesis
    using get_sum_good [OF s(2), of i i] s(1) by auto
qed

theorem bulk_build_point_value_witness:
  "[3, 1, 4] \<noteq> ([] :: int32 list) \<and> 4 * int (length [3, 1, 4 :: int32]) < 2 ^ 31 \<and>
   0 \<le> sint (1 :: int32) \<and> sint (1 :: int32) \<le> int (length [3, 1, 4 :: int32]) - 1 \<and>
   (\<exists>s s'. SegmentTree_vec [3, 1, 4] = Some s \<and> get_sum 1 1 s = Some (1, s'))"
  using bulk_build_point_value [of "[3, 1, 4]" 1] by simp

end
